theory Spec2Isabelle
  imports Main
begin

section \<open>Data model of ControlSaveTiles.ts\<close>

text \<open>
  Modelled from the spec: the type \<open>TileInfo\<close> is declared in TileManager, which is not
  among the sources; the spec describes a tile descriptor as url, storage key and the
  coordinates x, y, z. The control only ever reads \<open>tile.url\<close>.
\<close>

record TileInfo =
  url :: string
  key :: string
  tile_x :: int
  tile_y :: int
  tile_z :: int

text \<open>The bytes of a downloaded tile. The control passes them on unread.\<close>

type_synonym blob = string

text \<open>
  Leaflet's geometry is a collaborator: a geographic position, a projected point, a
  geographic rectangle with its two corners, and the rectangle \<open>bounds(a, b)\<close> of two
  projected points (leaflet's \<open>toBounds\<close>).
\<close>

type_synonym LatLng = "int \<times> int"

type_synonym Point = "int \<times> int"

datatype LatLngBounds = LatLngBounds (getNorthWest: LatLng) (getSouthEast: LatLng)

datatype Bounds = toBounds Point Point

text \<open>
  What \<open>this._map\<close> and \<open>this._baseLayer\<close> answer at the moment of a click on the save
  button: the current zoom, the visible rectangle, the projection, and the tile layer's
  enumeration of the tiles of an area at a zoom level.
\<close>

record Env =
  getZoom :: int
  getBounds :: LatLngBounds
  project :: "LatLng \<Rightarrow> int \<Rightarrow> Point"
  getTileUrls :: "Bounds \<Rightarrow> int \<Rightarrow> TileInfo list"

text \<open>
  \<open>SaveTileOptions\<close>, without the button labels and the position of the control.
  \<open>confirm\<close> and \<open>confirmRemoval\<close> say whether a hook is configured (not \<open>null\<close>); what
  the hook does with the callback it receives is the environment's choice.
\<close>

record SaveTileOptions =
  maxZoom :: int
  saveWhatYouSee :: bool
  bounds :: "LatLngBounds option"
  confirm :: bool
  confirmRemoval :: bool
  parallel :: int
  zoomlevels :: "int list option"

text \<open>
  \<open>SaveStatus\<close>. The field \<open>_tilesforSave\<close> holds a reference to an array: the address of
  the array in the store of the state below.
\<close>

record SaveStatus =
  tilesforSave :: nat
  storagesize :: nat
  lengthToBeSaved :: nat
  lengthSaved :: nat
  lengthLoaded :: nat

text \<open>
  What the control does to the outside, in the order it does it: an event fired on the
  base layer (with the status record as it is at that moment, none for
  \<open>tilesremoved\<close>), a call of one of the four functions of TileManager, a call of a
  confirmation hook.
\<close>

datatype action =
    Fired string "SaveStatus option"
  | Called_getStorageLength
  | Called_truncate
  | Called_downloadTile string
  | Called_saveTile TileInfo blob
  | Called_confirm SaveStatus
  | Called_confirmRemoval SaveStatus

text \<open>
  What is waiting to happen: a promise of TileManager with the reaction the control
  attached to it, the reaction \<open>.then(loader)\<close> of a worker whose \<open>_loadTile\<close> has
  finished, and the callbacks handed to the hooks. A download and a worker's reaction
  carry the address of the array \<open>tiles\<close> that the closure \<open>loader\<close> captured.
\<close>

datatype task =
    Count_task
  | Truncate_task
  | Download_task nat TileInfo
  | Save_task TileInfo blob
  | Loader_task nat
  | Confirm_task nat
  | ConfirmRemoval_task

text \<open>
  The control: its options, its status record, the arrays it allocated (by address),
  every task it created with a flag that says whether it is settled, and the actions
  so far.
\<close>

record state =
  options :: SaveTileOptions
  status :: SaveStatus
  arrays :: "nat \<Rightarrow> TileInfo list"
  next_array :: nat
  tasks :: "(task \<times> bool) list"
  trace :: "action list"

datatype error = Error string

datatype 'a promise = Resolved 'a | Pending nat

section \<open>The methods\<close>

text \<open>
  The bookkeeping first: an action goes to the end of the trace (\<open>fire\<close> is
  \<open>this._baseLayer.fire\<close>), a new task waits, a task is settled, the task that waits
  under an index, and a new array in the store. Zoom levels and \<open>parallel\<close> are
  integers, the counters and the storage size natural numbers.
\<close>

definition called :: "action \<Rightarrow> state \<Rightarrow> state" where
  "called a s = s\<lparr>trace := trace s @ [a]\<rparr>"

definition fire :: "string \<Rightarrow> SaveStatus option \<Rightarrow> state \<Rightarrow> state" where
  "fire name payload s = called (Fired name payload) s"

definition pending :: "task \<Rightarrow> state \<Rightarrow> state" where
  "pending t s = s\<lparr>tasks := tasks s @ [(t, False)]\<rparr>"

definition settle :: "nat \<Rightarrow> state \<Rightarrow> state" where
  "settle i s = s\<lparr>tasks := (tasks s)[i := (fst (tasks s ! i), True)]\<rparr>"

definition awaiting :: "state \<Rightarrow> nat \<Rightarrow> task option" where
  "awaiting s i =
     (if i < length (tasks s) \<and> \<not> snd (tasks s ! i) then Some (fst (tasks s ! i)) else None)"

definition new_array :: "TileInfo list \<Rightarrow> state \<Rightarrow> nat \<times> state" where
  "new_array xs s =
     (next_array s, s\<lparr>arrays := (arrays s)(next_array s := xs), next_array := next_array s + 1\<rparr>)"

text \<open>
  \<open>setStorageSize\<close>: the cached size when it is not zero, a call of \<open>getStorageLength\<close>
  otherwise. The promise it returns is resolved at once, or pending on the new task.
\<close>

definition setStorageSize :: "state \<Rightarrow> nat promise \<times> state" where
  "setStorageSize s =
     (if storagesize (status s) \<noteq> 0 then (Resolved (storagesize (status s)), s)
      else (Pending (length (tasks s)), pending Count_task (called Called_getStorageLength s)))"

text \<open>
  The reactions of \<open>setStorageSize\<close> to the promise of \<open>getStorageLength\<close>, with the value
  its own promise resolves to: \<open>.then\<close> on a number of keys, \<open>.catch(() => 0)\<close> on a
  rejection.
\<close>

definition getStorageLength_settled :: "nat option \<Rightarrow> state \<Rightarrow> nat \<times> state" where
  "getStorageLength_settled r s =
     (case r of
        Some numberOfKeys \<Rightarrow>
          (let s1 = s\<lparr>status := (status s)\<lparr>storagesize := numberOfKeys\<rparr>\<rparr>
           in (numberOfKeys, fire ''storagesize'' (Some (status s1)) s1))
      | None \<Rightarrow> (0, s))"

definition resetStatus :: "nat \<Rightarrow> state \<Rightarrow> state" where
  "resetStatus tiles s =
     s\<lparr>status :=
         \<lparr>tilesforSave = tiles,
          storagesize = storagesize (status s),
          lengthToBeSaved = length (arrays s tiles),
          lengthSaved = 0,
          lengthLoaded = 0\<rparr>\<rparr>"

text \<open>\<open>_loadTile\<close> up to its await: the call of \<open>downloadTile(tile.url)\<close>.\<close>

definition loadTile :: "nat \<Rightarrow> TileInfo \<Rightarrow> state \<Rightarrow> state" where
  "loadTile tiles tile s =
     pending (Download_task tiles tile) (called (Called_downloadTile (url tile)) s)"

text \<open>The closure \<open>loader\<close> of a run, over the array \<open>tiles\<close> of that run.\<close>

definition loader :: "nat \<Rightarrow> state \<Rightarrow> state" where
  "loader tiles s =
     (case arrays s tiles of
        [] \<Rightarrow> s
      | tile # rest \<Rightarrow> loadTile tiles tile (s\<lparr>arrays := (arrays s)(tiles := rest)\<rparr>))"

text \<open>The loop \<open>for (let i = 0; i < parallel; i += 1) loader()\<close>.\<close>

primrec loaders :: "nat \<Rightarrow> nat \<Rightarrow> state \<Rightarrow> state" where
  "loaders 0 tiles s = s"
| "loaders (Suc n) tiles s = loaders n tiles (loader tiles s)"

text \<open>The closure \<open>successCallback\<close> of \<open>_saveTiles\<close>.\<close>

definition successCallback :: "nat \<Rightarrow> state \<Rightarrow> state" where
  "successCallback tiles s =
     (let s1 = fire ''savestart'' (Some (status s)) s;
          par = min (int (length (arrays s1 tiles))) (parallel (options s1))
      in loaders (nat par) tiles s1)"

text \<open>\<open>_saveTile\<close> starts the write and does not wait for it.\<close>

definition saveTile :: "TileInfo \<Rightarrow> blob \<Rightarrow> state \<Rightarrow> state" where
  "saveTile tile b s = pending (Save_task tile b) (called (Called_saveTile tile b) s)"

text \<open>
  The reaction of \<open>_saveTile\<close> to the promise of \<open>saveTile\<close>. On a rejection the
  \<open>catch\<close> throws again, inside a promise nobody waits for: nothing changes.
\<close>

definition saveTile_settled :: "bool \<Rightarrow> state \<Rightarrow> state" where
  "saveTile_settled ok s =
     (if ok then
        (let s1 = s\<lparr>status := (status s)\<lparr>lengthSaved := lengthSaved (status s) + 1\<rparr>\<rparr>;
             s2 = fire ''savetileend'' (Some (status s1)) s1
         in if lengthSaved (status s2) = lengthToBeSaved (status s2)
            then snd (setStorageSize (fire ''saveend'' (Some (status s2)) s2))
            else s2)
      else s)"

text \<open>
  The reaction of \<open>_loadTile\<close> to the promise of \<open>downloadTile\<close>. On a blob the tile is
  counted and its write started, and \<open>_loadTile\<close> finishes, which queues the reaction
  \<open>.then(loader)\<close> of this worker. On a rejection \<open>_loadTile\<close> rejects: \<open>loader\<close> is not
  called again and nothing catches the rejection.
\<close>

definition downloadTile_settled :: "nat \<Rightarrow> TileInfo \<Rightarrow> blob option \<Rightarrow> state \<Rightarrow> state" where
  "downloadTile_settled tiles tile r s =
     (case r of
        None \<Rightarrow> s
      | Some b \<Rightarrow>
          (let s1 = s\<lparr>status := (status s)\<lparr>lengthLoaded := lengthLoaded (status s) + 1\<rparr>\<rparr>;
               s2 = saveTile tile b s1;
               s3 = fire ''loadtileend'' (Some (status s2)) s2;
               s4 = (if lengthLoaded (status s3) = lengthToBeSaved (status s3)
                     then fire ''loadend'' (Some (status s3)) s3 else s3)
           in pending (Loader_task tiles) s4))"

text \<open>The loop \<open>for (let zoom = currentZoom; zoom <= maxZoom; zoom += 1)\<close>.\<close>

function push_zooms :: "int \<Rightarrow> int \<Rightarrow> int list \<Rightarrow> int list" where
  "push_zooms zoom mx zs = (if zoom \<le> mx then push_zooms (zoom + 1) mx (zs @ [zoom]) else zs)"
  by pat_completeness auto
termination
  by (relation "measure (\<lambda>(zoom, mx, zs). nat (mx + 1 - zoom))") auto

declare push_zooms.simps [simp del]

text \<open>The loop over \<open>zoomlevels\<close> that builds \<open>tiles\<close> with \<open>concat\<close>.\<close>

fun concat_tiles :: "Env \<Rightarrow> LatLngBounds \<Rightarrow> int list \<Rightarrow> TileInfo list \<Rightarrow> TileInfo list" where
  "concat_tiles m latlngBounds [] tiles = tiles"
| "concat_tiles m latlngBounds (zoom # zs) tiles =
     (let area = toBounds (project m (getNorthWest latlngBounds) zoom)
                          (project m (getSouthEast latlngBounds) zoom)
      in concat_tiles m latlngBounds zs (tiles @ getTileUrls m area zoom))"

text \<open>\<open>_saveTiles\<close> up to the loop over the zoom levels: the levels, or the error thrown.\<close>

definition minZoom :: int where
  "minZoom = 5"

definition save_zoomlevels :: "Env \<Rightarrow> state \<Rightarrow> error + int list" where
  "save_zoomlevels m s =
     (if saveWhatYouSee (options s) then
        (let currentZoom = getZoom m
         in if currentZoom < minZoom
            then Inl (Error (''It'' @ [CHR 0x27] @ ''s not possible to save with zoom below level 5.''))
            else Inr (push_zooms currentZoom (maxZoom (options s)) []))
      else Inr (case zoomlevels (options s) of Some zs \<Rightarrow> zs | None \<Rightarrow> [getZoom m]))"

definition save_tiles :: "Env \<Rightarrow> state \<Rightarrow> int list \<Rightarrow> TileInfo list" where
  "save_tiles m s zs =
     (let latlngBounds = (case bounds (options s) of Some b \<Rightarrow> b | None \<Rightarrow> getBounds m)
      in concat_tiles m latlngBounds zs [])"

text \<open>\<open>_saveTiles\<close> from \<open>_resetStatus(tiles)\<close> on: the reset, then the gate.\<close>

definition save_reset :: "TileInfo list \<Rightarrow> state \<Rightarrow> state" where
  "save_reset tiles s = (case new_array tiles s of (a, s1) \<Rightarrow> resetStatus a s1)"

definition save_gate :: "state \<Rightarrow> state" where
  "save_gate s =
     (if confirm (options s)
      then pending (Confirm_task (tilesforSave (status s))) (called (Called_confirm (status s)) s)
      else successCallback (tilesforSave (status s)) s)"

definition saveTiles :: "Env \<Rightarrow> state \<Rightarrow> error + state" where
  "saveTiles m s =
     (case save_zoomlevels m s of
        Inl e \<Rightarrow> Inl e
      | Inr zs \<Rightarrow> Inr (save_gate (save_reset (save_tiles m s zs) s)))"

text \<open>\<open>_rmTiles\<close> and its closure \<open>successCallback\<close>.\<close>

definition rm_successCallback :: "state \<Rightarrow> state" where
  "rm_successCallback s = pending Truncate_task (called Called_truncate s)"

definition rmTiles :: "state \<Rightarrow> state" where
  "rmTiles s =
     (if confirmRemoval (options s)
      then pending ConfirmRemoval_task (called (Called_confirmRemoval (status s)) s)
      else rm_successCallback s)"

definition truncate_settled :: "bool \<Rightarrow> state \<Rightarrow> state" where
  "truncate_settled ok s =
     (if ok then
        (let s1 = s\<lparr>status := (status s)\<lparr>storagesize := 0\<rparr>\<rparr>;
             s2 = fire ''tilesremoved'' None s1
         in fire ''storagesize'' (Some (status s2)) s2)
      else s)"

text \<open>
  The constructor: the zeroed status record with its empty array, the first call of
  \<open>setStorageSize\<close>, and the options (already merged with the defaults, which are those of
  the source). The options do not change afterwards. The wiring of the two buttons, and
  \<open>getStorageSize\<close> and \<open>setLayer\<close>, which no claim is about, are left out.
\<close>

definition defaults :: SaveTileOptions where
  "defaults =
     \<lparr>maxZoom = 19, saveWhatYouSee = False, bounds = None, confirm = False,
      confirmRemoval = False, parallel = 50, zoomlevels = None\<rparr>"

definition savetiles :: "SaveTileOptions \<Rightarrow> state" where
  "savetiles opts =
     snd (setStorageSize
       \<lparr>options = opts,
        status = \<lparr>tilesforSave = 0, storagesize = 0, lengthToBeSaved = 0,
                  lengthSaved = 0, lengthLoaded = 0\<rparr>,
        arrays = (\<lambda>a. []),
        next_array = 1,
        tasks = [],
        trace = []\<rparr>)"

section \<open>What can happen, one thing at a time\<close>

text \<open>
  JavaScript runs one reaction at a time, to its end. An input is what starts one: a
  click on one of the two buttons (for the save button, with the map as it is then), a
  call of \<open>setStorageSize\<close> from outside, a hook calling the callback it was given, the
  settling of a promise of TileManager (with its value; \<open>None\<close> or \<open>False\<close> is a
  rejection), or the turn of a worker's reaction \<open>.then(loader)\<close>. The four functions of
  TileManager are not among the sources: what they answer, and when, is part of the
  input. An input that names no task, a settled one or one of another kind changes
  nothing. A promise settles once; a callback stays callable.

  The reactions may come in any order here. JavaScript runs a worker's reaction
  \<open>.then(loader)\<close> before the next click or network answer; the runs of the model
  include those of the program, so what holds for every run of the model holds for the
  program. The concrete runs below take the turns in the program's order.
\<close>

datatype input =
    Click_save Env
  | Click_rm
  | Refresh
  | Proceed nat
  | Count_settled nat "nat option"
  | Truncate_settled nat bool
  | Download_settled nat "blob option"
  | Save_settled nat bool
  | Loader_resumed nat

fun step :: "state \<Rightarrow> input \<Rightarrow> state" where
  "step s (Click_save m) = (case saveTiles m s of Inl e \<Rightarrow> s | Inr s' \<Rightarrow> s')"
| "step s Click_rm = rmTiles s"
| "step s Refresh = snd (setStorageSize s)"
| "step s (Proceed i) =
     (case awaiting s i of
        Some (Confirm_task tiles) \<Rightarrow> successCallback tiles s
      | Some ConfirmRemoval_task \<Rightarrow> rm_successCallback s
      | _ \<Rightarrow> s)"
| "step s (Count_settled i r) =
     (case awaiting s i of
        Some Count_task \<Rightarrow> snd (getStorageLength_settled r (settle i s))
      | _ \<Rightarrow> s)"
| "step s (Truncate_settled i ok) =
     (case awaiting s i of
        Some Truncate_task \<Rightarrow> truncate_settled ok (settle i s)
      | _ \<Rightarrow> s)"
| "step s (Download_settled i r) =
     (case awaiting s i of
        Some (Download_task tiles tile) \<Rightarrow> downloadTile_settled tiles tile r (settle i s)
      | _ \<Rightarrow> s)"
| "step s (Save_settled i ok) =
     (case awaiting s i of
        Some (Save_task tile b) \<Rightarrow> saveTile_settled ok (settle i s)
      | _ \<Rightarrow> s)"
| "step s (Loader_resumed i) =
     (case awaiting s i of
        Some (Loader_task tiles) \<Rightarrow> loader tiles (settle i s)
      | _ \<Rightarrow> s)"

fun run :: "state \<Rightarrow> input list \<Rightarrow> state" where
  "run s [] = s"
| "run s (i # is) = run (step s i) is"

section \<open>Notions the statements use\<close>

text \<open>
  The tiles of one zoom level, in the words of the loop body of \<open>_saveTiles\<close>: the two
  corners projected at that level, and the layer's tiles of the rectangle they span.
\<close>

definition level_tiles :: "Env \<Rightarrow> LatLngBounds \<Rightarrow> int \<Rightarrow> TileInfo list" where
  "level_tiles m b zoom =
     getTileUrls m (toBounds (project m (getNorthWest b) zoom) (project m (getSouthEast b) zoom)) zoom"

definition save_bounds :: "Env \<Rightarrow> state \<Rightarrow> LatLngBounds" where
  "save_bounds m s = (case bounds (options s) of Some b \<Rightarrow> b | None \<Rightarrow> getBounds m)"

text \<open>How many times \<open>successCallback\<close> calls \<open>loader\<close>.\<close>

definition launched :: "nat \<Rightarrow> state \<Rightarrow> nat" where
  "launched q s = nat (min (int (length (arrays s q))) (parallel (options s)))"

text \<open>The array a task's closure holds, and the downloads and writes not yet settled.\<close>

fun task_array :: "task \<Rightarrow> nat option" where
  "task_array (Download_task q t) = Some q"
| "task_array (Loader_task q) = Some q"
| "task_array (Confirm_task q) = Some q"
| "task_array _ = None"

fun open_download :: "task \<times> bool \<Rightarrow> bool" where
  "open_download (Download_task q t, b) = (\<not> b)"
| "open_download _ = False"

fun open_save :: "task \<times> bool \<Rightarrow> bool" where
  "open_save (Save_task t x, b) = (\<not> b)"
| "open_save _ = False"

definition downloads_in_flight :: "state \<Rightarrow> nat" where
  "downloads_in_flight s = length (filter open_download (tasks s))"

definition saves_in_flight :: "state \<Rightarrow> nat" where
  "saves_in_flight s = length (filter open_save (tasks s))"

text \<open>
  A control is idle when no earlier run has work left: no download and no write is in
  flight, and the array of every worker and of every callback of the save hook has been
  emptied. The freshly constructed control is idle, and so is a control whose runs have
  all drained.
\<close>

definition resting :: "nat \<Rightarrow> (nat \<Rightarrow> TileInfo list) \<Rightarrow> task \<times> bool \<Rightarrow> bool" where
  "resting n arr p =
     (snd p \<or>
      (case fst p of
         Download_task q x \<Rightarrow> False
       | Save_task x y \<Rightarrow> False
       | Loader_task q \<Rightarrow> q < n \<and> arr q = []
       | Confirm_task q \<Rightarrow> q < n \<and> arr q = []
       | _ \<Rightarrow> True))"

definition idle :: "state \<Rightarrow> bool" where
  "idle s = list_all (resting (next_array s) (arrays s)) (tasks s)"

text \<open>
  The invariant of a run that no other save request overlaps: every tile of the run's
  array is still in the array, or being downloaded, or loaded (or its download failed);
  every loaded tile is saved or being written (or its write failed); and whatever else
  is waiting holds an empty array.
\<close>

definition spent :: "nat \<Rightarrow> (nat \<Rightarrow> TileInfo list) \<Rightarrow> task \<times> bool \<Rightarrow> bool" where
  "spent a arr p =
     (snd p \<or>
      (case task_array (fst p) of
         Some q \<Rightarrow> q = a \<or> arr q = []
       | None \<Rightarrow> True))"

definition others_done :: "state \<Rightarrow> bool" where
  "others_done s = list_all (spent (tilesforSave (status s)) (arrays s)) (tasks s)"

definition counted :: "state \<Rightarrow> bool" where
  "counted s =
     (others_done s
      \<and> lengthLoaded (status s) + downloads_in_flight s
          + length (arrays s (tilesforSave (status s))) \<le> lengthToBeSaved (status s)
      \<and> lengthSaved (status s) + saves_in_flight s \<le> lengthLoaded (status s))"

text \<open>
  The inputs that are a click on the save button, the successful end of a download that
  is awaited, and the successful end of a write that is awaited.
\<close>

fun is_Click_save :: "input \<Rightarrow> bool" where
  "is_Click_save (Click_save m) = True"
| "is_Click_save _ = False"

fun download_succeeds :: "state \<Rightarrow> input \<Rightarrow> bool" where
  "download_succeeds s (Download_settled i (Some b)) =
     (case awaiting s i of Some (Download_task q t) \<Rightarrow> True | _ \<Rightarrow> False)"
| "download_succeeds s _ = False"

fun save_succeeds :: "state \<Rightarrow> input \<Rightarrow> bool" where
  "save_succeeds s (Save_settled i True) =
     (case awaiting s i of Some (Save_task t b) \<Rightarrow> True | _ \<Rightarrow> False)"
| "save_succeeds s _ = False"

text \<open>
  The tiles the workers of an array have claimed so far, in the order of the claims:
  every download ever started for the array, settled or not. And the workers of an array
  that are alive: a worker is waiting for its download, or for its turn to call
  \<open>loader\<close> again.
\<close>

fun claim_of :: "nat \<Rightarrow> task \<times> bool \<Rightarrow> TileInfo list" where
  "claim_of q (Download_task q' t, b) = (if q' = q then [t] else [])"
| "claim_of q _ = []"

definition claimed :: "nat \<Rightarrow> state \<Rightarrow> TileInfo list" where
  "claimed q s = concat (map (claim_of q) (tasks s))"

fun is_worker :: "nat \<Rightarrow> task \<times> bool \<Rightarrow> bool" where
  "is_worker q (Download_task q' t, b) = (q' = q \<and> \<not> b)"
| "is_worker q (Loader_task q', b) = (q' = q \<and> \<not> b)"
| "is_worker q _ = False"

definition workers :: "nat \<Rightarrow> state \<Rightarrow> nat" where
  "workers q s = length (filter (is_worker q) (tasks s))"

text \<open>How often an event has been fired, and the calls of \<open>downloadTile\<close> so far.\<close>

fun is_fired :: "string \<Rightarrow> action \<Rightarrow> bool" where
  "is_fired n (Fired n' p) = (n' = n)"
| "is_fired n _ = False"

definition fired :: "string \<Rightarrow> state \<Rightarrow> nat" where
  "fired n s = length (filter (is_fired n) (trace s))"

fun is_download :: "action \<Rightarrow> bool" where
  "is_download (Called_downloadTile u) = True"
| "is_download _ = False"

definition download_calls :: "state \<Rightarrow> action list" where
  "download_calls s = filter is_download (trace s)"

text \<open>
  Two invariants of the proofs below. \<open>once c\<close>: since the count was \<open>c\<close>, \<open>saveend\<close> has
  been fired once if \<open>lengthSaved\<close> has reached a positive \<open>lengthToBeSaved\<close>, and not at
  all otherwise. \<open>held i0\<close>: task \<open>i0\<close> is a callback of the save hook, and everything
  else is at rest; \<open>same_run\<close> is what then stays as it is.
\<close>

definition once :: "nat \<Rightarrow> state \<Rightarrow> bool" where
  "once c s =
     (fired ''saveend'' s
        = c + (if lengthSaved (status s) = lengthToBeSaved (status s)
                  \<and> 0 < lengthToBeSaved (status s) then 1 else 0))"

definition held :: "nat \<Rightarrow> state \<Rightarrow> bool" where
  "held i0 s =
     (i0 < length (tasks s) \<and> (\<exists>a. tasks s ! i0 = (Confirm_task a, False))
      \<and> (\<forall>i < length (tasks s). i \<noteq> i0 \<longrightarrow> resting (next_array s) (arrays s) (tasks s ! i)))"

definition same_run :: "state \<Rightarrow> state \<Rightarrow> bool" where
  "same_run s s' =
     (arrays s' = arrays s \<and> next_array s' = next_array s
      \<and> lengthLoaded (status s') = lengthLoaded (status s)
      \<and> lengthSaved (status s') = lengthSaved (status s)
      \<and> lengthToBeSaved (status s') = lengthToBeSaved (status s)
      \<and> tilesforSave (status s') = tilesforSave (status s)
      \<and> download_calls s' = download_calls s)"

section \<open>Concrete maps, tiles and states\<close>

definition tile_a :: TileInfo where
  "tile_a = \<lparr>url = ''a.png'', key = ''a'', tile_x = 0, tile_y = 0, tile_z = 10\<rparr>"

definition tile_b :: TileInfo where
  "tile_b = \<lparr>url = ''b.png'', key = ''b'', tile_x = 1, tile_y = 0, tile_z = 10\<rparr>"

text \<open>A map at zoom 10 whose layer has one tile, and one whose layer has two.\<close>

definition one_tile_map :: Env where
  "one_tile_map =
     \<lparr>getZoom = 10, getBounds = LatLngBounds (0, 0) (1, 1),
      project = (\<lambda>p zoom. p), getTileUrls = (\<lambda>area zoom. [tile_a])\<rparr>"

definition two_tile_map :: Env where
  "two_tile_map =
     \<lparr>getZoom = 10, getBounds = LatLngBounds (0, 0) (1, 1),
      project = (\<lambda>p zoom. p), getTileUrls = (\<lambda>area zoom. [tile_a, tile_b])\<rparr>"

text \<open>A map at zoom 4 whose layer has one tile per level, marked with the level.\<close>

definition level_map :: Env where
  "level_map =
     \<lparr>getZoom = 4, getBounds = LatLngBounds (0, 0) (1, 1),
      project = (\<lambda>p zoom. p),
      getTileUrls =
        (\<lambda>area zoom. [\<lparr>url = ''t'', key = ''t'', tile_x = 0, tile_y = 0, tile_z = zoom\<rparr>])\<rparr>"

text \<open>The default control after a click on the map of two tiles.\<close>

definition clicked_state :: state where
  "clicked_state = step (savetiles defaults) (Click_save two_tile_map)"

text \<open>
  A control whose store held 7 tiles, after a run of one tile that has drained; the
  same run before the write of its tile has settled; and that run with an empty store.
\<close>

definition drained_state :: state where
  "drained_state =
     run (savetiles defaults)
       [Count_settled 0 (Some 7), Click_save one_tile_map, Download_settled 1 (Some ''x''),
        Loader_resumed 3, Save_settled 2 True]"

definition cached_state :: state where
  "cached_state =
     run (savetiles defaults)
       [Count_settled 0 (Some 7), Click_save one_tile_map, Download_settled 1 (Some ''x''),
        Loader_resumed 3]"

definition saving_state :: state where
  "saving_state =
     run (savetiles defaults)
       [Click_save one_tile_map, Download_settled 1 (Some ''x''), Loader_resumed 3]"

text \<open>A control whose store held 10 tiles, after a click on the remove button.\<close>

definition removing_state :: state where
  "removing_state =
     run (savetiles defaults)
       [Count_settled 0 (Some 10), Click_save one_tile_map, Download_settled 1 (Some ''x''),
        Loader_resumed 3, Click_rm]"

text \<open>
  A control with a save hook and one worker at a time: after a click on a map of two
  tiles; after the hook has called back; after the first download has succeeded; and
  after a second click on the save button while the first run is at work.
\<close>

definition gated_state :: state where
  "gated_state =
     step (savetiles (defaults\<lparr>confirm := True, parallel := 1\<rparr>)) (Click_save two_tile_map)"

definition loading_state :: state where
  "loading_state = step gated_state (Proceed 1)"

definition working_state :: state where
  "working_state = step loading_state (Download_settled 2 (Some ''x''))"

definition overlapped_state :: state where
  "overlapped_state = run gated_state [Proceed 1, Click_save two_tile_map]"

text \<open>A control with a save hook, just constructed.\<close>

definition hooked_state :: state where
  "hooked_state = savetiles (defaults\<lparr>confirm := True\<rparr>)"

text \<open>One worker at a time, two tiles, and the first download fails.\<close>

definition failed_state :: state where
  "failed_state =
     run (savetiles (defaults\<lparr>parallel := 1\<rparr>)) [Click_save two_tile_map, Download_settled 1 None]"

section \<open>Lemmas\<close>

subsection \<open>The loops of \<open>_saveTiles\<close>\<close>

lemma concat_tiles_eq:
  "concat_tiles m b zs acc = acc @ concat (map (level_tiles m b) zs)"
  by (induction zs arbitrary: acc) (simp_all add: level_tiles_def)

lemma push_zooms_eq: "push_zooms zoom mx zs = zs @ [zoom..mx]"
proof (induction zoom mx zs rule: push_zooms.induct)
  case (1 zoom mx zs)
  show ?case
  proof (cases "zoom \<le> mx")
    case True
    with 1 show ?thesis by (subst push_zooms.simps) (simp add: upto_rec1)
  next
    case False
    then show ?thesis by (subst push_zooms.simps) simp
  qed
qed

subsection \<open>The primitives, and the launch in closed form\<close>

lemma called_simps [simp]:
  "options (called a s) = options s" "status (called a s) = status s"
  "arrays (called a s) = arrays s" "next_array (called a s) = next_array s"
  "tasks (called a s) = tasks s" "trace (called a s) = trace s @ [a]"
  by (simp_all add: called_def)

lemma fire_simps [simp]:
  "options (fire n p s) = options s" "status (fire n p s) = status s"
  "arrays (fire n p s) = arrays s" "next_array (fire n p s) = next_array s"
  "tasks (fire n p s) = tasks s" "trace (fire n p s) = trace s @ [Fired n p]"
  by (simp_all add: fire_def)

lemma pending_simps [simp]:
  "options (pending t s) = options s" "status (pending t s) = status s"
  "arrays (pending t s) = arrays s" "next_array (pending t s) = next_array s"
  "tasks (pending t s) = tasks s @ [(t, False)]" "trace (pending t s) = trace s"
  by (simp_all add: pending_def)

lemma settle_simps [simp]:
  "options (settle i s) = options s" "status (settle i s) = status s"
  "arrays (settle i s) = arrays s" "next_array (settle i s) = next_array s"
  "tasks (settle i s) = (tasks s)[i := (fst (tasks s ! i), True)]" "trace (settle i s) = trace s"
  by (simp_all add: settle_def)

lemma loader_Nil: "arrays s q = [] \<Longrightarrow> loader q s = s"
  by (simp add: loader_def)

lemma loader_Cons:
  "arrays s q = t # ts \<Longrightarrow>
   loader q s = s\<lparr>arrays := (arrays s)(q := ts),
                  tasks := tasks s @ [(Download_task q t, False)],
                  trace := trace s @ [Called_downloadTile (url t)]\<rparr>"
  by (simp add: loader_def loadTile_def pending_def called_def)

lemma loaders_eq:
  "loaders n q s =
     s\<lparr>arrays := (arrays s)(q := drop n (arrays s q)),
       tasks := tasks s @ map (\<lambda>t. (Download_task q t, False)) (take n (arrays s q)),
       trace := trace s @ map (\<lambda>t. Called_downloadTile (url t)) (take n (arrays s q))\<rparr>"
proof (induction n arbitrary: s)
  case 0
  show ?case by simp
next
  case (Suc n)
  show ?case
  proof (cases "arrays s q")
    case Nil
    then show ?thesis using Suc [of s] by (simp add: loader_Nil)
  next
    case (Cons t ts)
    then show ?thesis by (simp add: loader_Cons Suc fun_upd_def cong: if_cong)
  qed
qed

lemma launched_le: "launched q s \<le> length (arrays s q)"
  by (simp add: launched_def)

lemma successCallback_eq:
  "successCallback q s =
     s\<lparr>arrays := (arrays s)(q := drop (launched q s) (arrays s q)),
       tasks := tasks s @ map (\<lambda>t. (Download_task q t, False)) (take (launched q s) (arrays s q)),
       trace := trace s @ Fired ''savestart'' (Some (status s))
                  # map (\<lambda>t. Called_downloadTile (url t)) (take (launched q s) (arrays s q))\<rparr>"
  by (simp add: successCallback_def Let_def loaders_eq launched_def fire_def called_def)

subsection \<open>Settling a task\<close>

lemma filter_update_len:
  "i < length xs \<Longrightarrow> \<not> P y \<Longrightarrow>
   length (filter P (xs[i := y])) + (if P (xs ! i) then 1 else 0) = length (filter P xs)"
proof (induction xs arbitrary: i)
  case Nil
  then show ?case by simp
next
  case (Cons x xs)
  then show ?case by (cases i) auto
qed

lemma awaitingD: "awaiting s i = Some t \<Longrightarrow> i < length (tasks s) \<and> tasks s ! i = (t, False)"
  by (auto simp: awaiting_def split: if_splits intro: prod_eqI)

lemma open_download_settled [simp]: "\<not> open_download (t, True)"
  by (cases t) simp_all

lemma open_save_settled [simp]: "\<not> open_save (t, True)"
  by (cases t) simp_all

lemma list_all_update: "list_all P xs \<Longrightarrow> P y \<Longrightarrow> list_all P (xs[i := y])"
  using set_update_subset_insert [of xs i y] by (auto simp: list_all_iff)

lemma downloads_settle:
  "awaiting s i = Some t \<Longrightarrow>
   downloads_in_flight (settle i s) + (if open_download (t, False) then 1 else 0) = downloads_in_flight s"
  using filter_update_len [of i "tasks s" open_download "(t, True)"]
  by (auto dest!: awaitingD simp: downloads_in_flight_def)

lemma saves_settle:
  "awaiting s i = Some t \<Longrightarrow>
   saves_in_flight (settle i s) + (if open_save (t, False) then 1 else 0) = saves_in_flight s"
  using filter_update_len [of i "tasks s" open_save "(t, True)"]
  by (auto dest!: awaitingD simp: saves_in_flight_def)

subsection \<open>The invariant of the counters\<close>

lemma others_done_settle: "others_done s \<Longrightarrow> others_done (settle i s)"
  by (simp add: others_done_def list_all_update spent_def)

lemma others_doneD:
  "others_done s \<Longrightarrow> awaiting s i = Some t \<Longrightarrow> task_array t = Some q \<Longrightarrow>
   q = tilesforSave (status s) \<or> arrays s q = []"
  by (drule awaitingD) (force simp: others_done_def spent_def list_all_iff dest: nth_mem)

lemma spent_shrink:
  "list_all (spent a arr) xs \<Longrightarrow> list_all (spent a (arr(q := drop n (arr q)))) xs"
  by (fastforce simp: list_all_iff spent_def split: option.splits)

lemma open_download_claims:
  "filter open_download (map (\<lambda>t. (Download_task q t, False)) ys)
     = map (\<lambda>t. (Download_task q t, False)) ys"
  by (induction ys) simp_all

lemma open_save_claims:
  "filter open_save (map (\<lambda>t. (Download_task q t, False)) ys) = []"
  by (induction ys) simp_all

lemma counted_loaders:
  assumes "counted s" and "q = tilesforSave (status s) \<or> arrays s q = []"
  shows "counted (loaders n q s)"
proof -
  let ?a = "tilesforSave (status s)"
  have old: "list_all (spent ?a ((arrays s)(q := drop n (arrays s q)))) (tasks s)"
    using assms(1) by (simp add: counted_def others_done_def spent_shrink)
  have new: "list_all (spent ?a ((arrays s)(q := drop n (arrays s q))))
               (map (\<lambda>t. (Download_task q t, False)) (take n (arrays s q)))"
    using assms(2) by (auto simp: list_all_iff spent_def)
  have len: "length (take n (arrays s q)) + length (drop n (arrays s q)) = length (arrays s q)"
    by simp
  show ?thesis
  proof (cases "q = ?a")
    case True
    with assms(1) old new len show ?thesis
      by (simp add: counted_def others_done_def loaders_eq downloads_in_flight_def
          saves_in_flight_def open_download_claims open_save_claims min_def)
  next
    case False
    with assms(2) have "arrays s q = []" by simp
    with assms(1) old new False show ?thesis
      by (simp add: counted_def others_done_def loaders_eq downloads_in_flight_def
          saves_in_flight_def)
  qed
qed

lemma status_loaders [simp]: "status (loaders n q s) = status s"
  by (simp add: loaders_eq)

lemma counted_frame:
  assumes "counted s"
    and "status s' = status s" and "arrays s' = arrays s" and "tasks s' = tasks s"
  shows "counted s'"
  using assms
  by (simp add: counted_def others_done_def downloads_in_flight_def saves_in_flight_def)

lemma counted_loader:
  "counted s \<Longrightarrow> q = tilesforSave (status s) \<or> arrays s q = [] \<Longrightarrow> counted (loader q s)"
  using counted_loaders [of s q "Suc 0"] by simp

lemma counted_successCallback:
  assumes "counted s" and "q = tilesforSave (status s) \<or> arrays s q = []"
  shows "counted (successCallback q s)"
proof -
  have "counted (fire ''savestart'' (Some (status s)) s)"
    using assms(1) by (rule counted_frame) simp_all
  then show ?thesis
    using assms(2) by (simp add: successCallback_def Let_def counted_loaders)
qed

lemma status_successCallback [simp]: "status (successCallback q s) = status s"
  by (simp add: successCallback_def Let_def)

lemma counted_pending:
  assumes "counted s" and "\<not> open_download (t, False)" and "\<not> open_save (t, False)"
    and "spent (tilesforSave (status s)) (arrays s) (t, False)"
  shows "counted (pending t s)"
  using assms
  by (simp add: counted_def others_done_def downloads_in_flight_def saves_in_flight_def)

lemma counted_settle:
  assumes "counted s" and "awaiting s i = Some t"
  shows "counted (settle i s)"
  using assms downloads_settle [of s i t] saves_settle [of s i t]
  by (auto simp: counted_def others_done_settle split: if_splits)

lemma fire_if_simps [simp]:
  "options (if c then fire n p s else s) = options s"
  "status (if c then fire n p s else s) = status s"
  "arrays (if c then fire n p s else s) = arrays s"
  "next_array (if c then fire n p s else s) = next_array s"
  "tasks (if c then fire n p s else s) = tasks s"
  by simp_all

lemma counted_step:
  assumes "counted s" and "\<not> is_Click_save ev"
  shows "counted (step s ev) \<and> lengthToBeSaved (status (step s ev)) = lengthToBeSaved (status s)
     \<and> tilesforSave (status (step s ev)) = tilesforSave (status s)"
proof (cases ev)
  case (Click_save m)
  with assms show ?thesis by simp
next
  case Click_rm
  with assms show ?thesis
    by (simp add: counted_def rmTiles_def rm_successCallback_def others_done_def
        downloads_in_flight_def saves_in_flight_def spent_def)
next
  case Refresh
  with assms show ?thesis
    by (simp add: counted_def setStorageSize_def others_done_def
        downloads_in_flight_def saves_in_flight_def spent_def)
next
  case (Proceed i)
  show ?thesis
  proof (cases "awaiting s i")
    case None
    with Proceed assms show ?thesis by simp
  next
    case (Some t)
    show ?thesis
    proof (cases t)
      case (Confirm_task q)
      with Some assms(1) have "q = tilesforSave (status s) \<or> arrays s q = []"
        by (auto simp: counted_def dest: others_doneD)
      with Proceed Some Confirm_task assms(1) show ?thesis
        by (simp add: counted_successCallback)
    next
      case ConfirmRemoval_task
      with Proceed Some assms(1) show ?thesis
        by (simp add: rm_successCallback_def counted_def others_done_def
        downloads_in_flight_def saves_in_flight_def spent_def)
    qed (use Proceed Some assms in simp_all)
  qed
next
  case (Count_settled i r)
  show ?thesis
  proof (cases "awaiting s i")
    case None
    with Count_settled assms show ?thesis by simp
  next
    case (Some t)
    show ?thesis
    proof (cases t)
      case Count_task
      have "counted (settle i s)" using assms(1) Some by (rule counted_settle)
      then have "counted (snd (getStorageLength_settled r (settle i s)))"
        by (cases r) (simp_all add: getStorageLength_settled_def Let_def counted_def others_done_def
          downloads_in_flight_def saves_in_flight_def)
      with Count_settled Some Count_task show ?thesis
        by (cases r) (simp_all add: getStorageLength_settled_def Let_def)
    qed (use Count_settled Some assms in simp_all)
  qed
next
  case (Truncate_settled i ok)
  show ?thesis
  proof (cases "awaiting s i")
    case None
    with Truncate_settled assms show ?thesis by simp
  next
    case (Some t)
    show ?thesis
    proof (cases t)
      case Truncate_task
      have "counted (settle i s)" using assms(1) Some by (rule counted_settle)
      then have "counted (truncate_settled ok (settle i s))"
        by (simp add: truncate_settled_def Let_def counted_def others_done_def
          downloads_in_flight_def saves_in_flight_def)
      with Truncate_settled Some Truncate_task show ?thesis
        by (simp add: truncate_settled_def Let_def)
    qed (use Truncate_settled Some assms in simp_all)
  qed
next
  case (Download_settled i r)
  show ?thesis
  proof (cases "awaiting s i")
    case None
    with Download_settled assms show ?thesis by simp
  next
    case (Some t)
    show ?thesis
    proof (cases t)
      case (Download_task q tile)
      have c: "counted (settle i s)" using assms(1) Some by (rule counted_settle)
      have d: "downloads_in_flight (settle i s) + 1 = downloads_in_flight s"
        using downloads_settle [OF Some] Download_task by simp
      have q: "q = tilesforSave (status s) \<or> arrays s q = []"
        using Some Download_task assms(1) by (auto simp: counted_def dest: others_doneD)
      show ?thesis
      proof (cases r)
        case None
        with Download_settled Some Download_task c show ?thesis
          by (simp add: downloadTile_settled_def)
      next
        case (Some b)
        with Download_settled \<open>awaiting s i = Some t\<close> Download_task c d q assms(1) show ?thesis
          by (simp add: downloadTile_settled_def Let_def saveTile_def counted_def others_done_def
              downloads_in_flight_def saves_in_flight_def spent_def)
      qed
    qed (use Download_settled Some assms in simp_all)
  qed
next
  case (Save_settled i ok)
  show ?thesis
  proof (cases "awaiting s i")
    case None
    with Save_settled assms show ?thesis by simp
  next
    case (Some t)
    show ?thesis
    proof (cases t)
      case (Save_task tile b)
      have c: "counted (settle i s)" using assms(1) Some by (rule counted_settle)
      have d: "saves_in_flight (settle i s) + 1 = saves_in_flight s"
        using saves_settle [OF Some] Save_task by simp
      from Save_settled Some Save_task c d assms(1) show ?thesis
        by (simp add: saveTile_settled_def Let_def setStorageSize_def counted_def others_done_def
              downloads_in_flight_def saves_in_flight_def spent_def)
    qed (use Save_settled Some assms in simp_all)
  qed
next
  case (Loader_resumed i)
  show ?thesis
  proof (cases "awaiting s i")
    case None
    with Loader_resumed assms show ?thesis by simp
  next
    case (Some t)
    show ?thesis
    proof (cases t)
      case (Loader_task q)
      have c: "counted (settle i s)" using assms(1) Some by (rule counted_settle)
      have q: "q = tilesforSave (status s) \<or> arrays s q = []"
        using Some Loader_task assms(1) by (auto simp: counted_def dest: others_doneD)
      have "counted (loader q (settle i s))"
        using c q by (simp add: counted_loader)
      moreover have "status (loader q (settle i s)) = status s"
        using status_loaders [of "Suc 0" q "settle i s"] by simp
      ultimately show ?thesis using Loader_resumed Some Loader_task by simp
    qed (use Loader_resumed Some assms in simp_all)
  qed
qed

lemma counted_run:
  "counted s \<Longrightarrow> list_all (\<lambda>ev. \<not> is_Click_save ev) evs \<Longrightarrow>
   counted (run s evs) \<and> lengthToBeSaved (status (run s evs)) = lengthToBeSaved (status s)
     \<and> tilesforSave (status (run s evs)) = tilesforSave (status s)"
proof (induction evs arbitrary: s)
  case Nil
  then show ?case by simp
next
  case (Cons ev evs)
  from Cons.prems have "counted (step s ev)" and
    "lengthToBeSaved (status (step s ev)) = lengthToBeSaved (status s)" and
    "tilesforSave (status (step s ev)) = tilesforSave (status s)"
    using counted_step [of s ev] by simp_all
  with Cons.IH [of "step s ev"] Cons.prems show ?case by simp
qed

lemma resting_no_open:
  "list_all (resting n arr) xs \<Longrightarrow> filter open_download xs = [] \<and> filter open_save xs = []"
proof (induction xs)
  case Nil
  then show ?case by simp
next
  case (Cons p xs)
  obtain t b where p: "p = (t, b)" by (cases p)
  with Cons show ?case by (cases t) (auto simp: resting_def)
qed

lemma resting_spent:
  "list_all (resting n arr) xs \<Longrightarrow> list_all (spent n (arr(n := ys))) xs"
proof (induction xs)
  case Nil
  then show ?case by simp
next
  case (Cons p xs)
  obtain t b where p: "p = (t, b)" by (cases p)
  with Cons show ?case by (cases t) (auto simp: resting_def spent_def)
qed

lemma save_reset_simps [simp]:
  "options (save_reset tiles s) = options s"
  "status (save_reset tiles s) =
     \<lparr>tilesforSave = next_array s, storagesize = storagesize (status s),
      lengthToBeSaved = length tiles, lengthSaved = 0, lengthLoaded = 0\<rparr>"
  "arrays (save_reset tiles s) = (arrays s)(next_array s := tiles)"
  "next_array (save_reset tiles s) = Suc (next_array s)"
  "tasks (save_reset tiles s) = tasks s"
  "trace (save_reset tiles s) = trace s"
  by (simp_all add: save_reset_def new_array_def resetStatus_def)

lemma counted_save_reset: "idle s \<Longrightarrow> counted (save_reset tiles s)"
  using resting_no_open [of "next_array s" "arrays s" "tasks s"]
    resting_spent [of "next_array s" "arrays s" "tasks s" tiles]
  by (simp add: idle_def counted_def others_done_def downloads_in_flight_def saves_in_flight_def)

lemma counted_called: "counted (called a s) = counted s"
  by (simp add: counted_def others_done_def downloads_in_flight_def saves_in_flight_def)

lemma counted_save_gate: "counted s \<Longrightarrow> counted (save_gate s)"
  by (simp add: save_gate_def counted_successCallback counted_pending counted_called spent_def)

lemma status_save_gate [simp]: "status (save_gate s) = status s"
  by (simp add: save_gate_def)

lemma saveTiles_Inr:
  "saveTiles m s = Inr s1 \<Longrightarrow>
   \<exists>zs. save_zoomlevels m s = Inr zs \<and> s1 = save_gate (save_reset (save_tiles m s zs) s)"
  by (auto simp: saveTiles_def split: sum.splits)

lemma counted_saveTiles:
  assumes "idle s" and "saveTiles m s = Inr s1"
  shows "counted s1"
  using assms by (auto dest!: saveTiles_Inr intro!: counted_save_gate counted_save_reset)

subsection \<open>Claims\<close>

lemma claim_of_flag: "claim_of q (t, b) = claim_of q (t, c)"
  by (cases t) simp_all

lemma claimed_settle [simp]: "claimed q (settle i s) = claimed q s"
proof (cases "i < length (tasks s)")
  case True
  have "claim_of q (fst (tasks s ! i), True) = claim_of q (tasks s ! i)"
    using claim_of_flag [of q "fst (tasks s ! i)" True "snd (tasks s ! i)"] by simp
  with True have "map (claim_of q) ((tasks s)[i := (fst (tasks s ! i), True)]) = map (claim_of q) (tasks s)"
    by (simp add: map_update list_update_same_conv)
  then show ?thesis by (simp add: claimed_def)
next
  case False
  then show ?thesis by (simp add: claimed_def list_update_beyond)
qed

lemma claimed_frame: "tasks s' = tasks s \<Longrightarrow> claimed q s' = claimed q s"
  by (simp add: claimed_def)

lemma claimed_pending [simp]: "claimed q (pending t s) = claimed q s @ claim_of q (t, False)"
  by (simp add: claimed_def)

lemma claimed_called [simp]: "claimed q (called a s) = claimed q s"
  by (simp add: claimed_def)

lemma claimed_fire [simp]: "claimed q (fire n p s) = claimed q s"
  by (simp add: claimed_def)

lemma claims_of_downloads:
  "concat (map (claim_of q \<circ> (\<lambda>t. (Download_task q' t, False))) ys) = (if q' = q then ys else [])"
  by (induction ys) simp_all

lemma claimed_loaders:
  "claimed q (loaders n q' s) = claimed q s @ (if q' = q then take n (arrays s q') else [])"
  by (simp add: claimed_def loaders_eq claims_of_downloads)

lemma arrays_loaders:
  "arrays (loaders n q' s) q = (if q' = q then drop n (arrays s q) else arrays s q)"
  by (simp add: loaders_eq)

lemma next_array_loaders [simp]: "next_array (loaders n q s) = next_array s"
  by (simp add: loaders_eq)

lemma kept_loaders:
  "claimed q (loaders n q' s) @ arrays (loaders n q' s) q = claimed q s @ arrays s q"
  by (simp add: claimed_loaders arrays_loaders)

lemma kept_loader:
  "claimed q (loader q' s) @ arrays (loader q' s) q = claimed q s @ arrays s q"
  using kept_loaders [of q "Suc 0" q' s] by simp

lemma kept_successCallback:
  "claimed q (successCallback q' s) @ arrays (successCallback q' s) q = claimed q s @ arrays s q"
  by (simp add: successCallback_def Let_def kept_loaders)

lemma next_array_successCallback [simp]: "next_array (successCallback q s) = next_array s"
  by (simp add: successCallback_def Let_def)

lemma next_array_loader [simp]: "next_array (loader q s) = next_array s"
  using next_array_loaders [of "Suc 0" q s] by simp

lemma kept_save_gate:
  "claimed q (save_gate s) @ arrays (save_gate s) q = claimed q s @ arrays s q"
  by (simp add: save_gate_def kept_successCallback)

lemma next_array_save_gate [simp]: "next_array (save_gate s) = next_array s"
  by (simp add: save_gate_def)

lemma kept_save_reset:
  "q < next_array s \<Longrightarrow>
   claimed q (save_reset tiles s) @ arrays (save_reset tiles s) q = claimed q s @ arrays s q"
  by (simp add: claimed_def)

lemma claimed_save_reset [simp]: "claimed q (save_reset tiles s) = claimed q s"
  by (simp add: claimed_def)

lemma claimed_updates [simp]:
  "claimed q (s\<lparr>status := x\<rparr>) = claimed q s"
  "claimed q (s\<lparr>trace := y\<rparr>) = claimed q s"
  "claimed q (s\<lparr>arrays := z\<rparr>) = claimed q s"
  by (simp_all add: claimed_def)

lemma kept_step:
  assumes "q < next_array s"
  shows "claimed q (step s ev) @ arrays (step s ev) q = claimed q s @ arrays s q
     \<and> next_array s \<le> next_array (step s ev)"
proof (cases ev)
  case (Click_save m)
  then show ?thesis
    using assms by (auto simp: saveTiles_def kept_save_gate split: sum.splits)
next
  case Click_rm
  then show ?thesis by (simp add: rmTiles_def rm_successCallback_def)
next
  case Refresh
  then show ?thesis by (simp add: setStorageSize_def)
next
  case (Proceed i)
  then show ?thesis
    by (simp add: kept_successCallback rm_successCallback_def split: option.splits task.splits)
next
  case (Count_settled i r)
  then show ?thesis
    by (simp add: getStorageLength_settled_def Let_def split: option.splits task.splits)
next
  case (Truncate_settled i ok)
  then show ?thesis
    by (simp add: truncate_settled_def Let_def split: option.splits task.splits)
next
  case (Download_settled i r)
  then show ?thesis
    by (simp add: downloadTile_settled_def saveTile_def Let_def
        split: option.splits task.splits)
next
  case (Save_settled i ok)
  then show ?thesis
    by (simp add: saveTile_settled_def setStorageSize_def Let_def
        split: option.splits task.splits)
next
  case (Loader_resumed i)
  then show ?thesis
    using kept_loader [of q _ "settle i s"]
    by (simp split: option.splits task.splits)
qed

lemma kept_run:
  "q < next_array s \<Longrightarrow>
   claimed q (run s evs) @ arrays (run s evs) q = claimed q s @ arrays s q"
proof (induction evs arbitrary: s)
  case Nil
  show ?case by simp
next
  case (Cons ev evs)
  from Cons.prems kept_step [of q s ev]
  have "claimed q (step s ev) @ arrays (step s ev) q = claimed q s @ arrays s q"
    and "q < next_array (step s ev)" by auto
  with Cons.IH [of "step s ev"] show ?case by simp
qed

subsection \<open>Workers\<close>

lemma is_worker_settled [simp]: "\<not> is_worker q (t, True)"
  by (cases t) simp_all

lemma workers_settle:
  "awaiting s i = Some t \<Longrightarrow>
   workers q (settle i s) + (if is_worker q (t, False) then 1 else 0) = workers q s"
  using filter_update_len [of i "tasks s" "is_worker q" "(t, True)"]
  by (auto dest!: awaitingD simp: workers_def)

lemma workers_pending [simp]:
  "workers q (pending t s) = workers q s + (if is_worker q (t, False) then 1 else 0)"
  by (simp add: workers_def)

lemma workers_updates [simp]:
  "workers q (s\<lparr>status := x\<rparr>) = workers q s"
  "workers q (s\<lparr>trace := y\<rparr>) = workers q s"
  "workers q (s\<lparr>arrays := z\<rparr>) = workers q s"
  "workers q (called a s) = workers q s"
  "workers q (fire n p s) = workers q s"
  "workers q (if c then fire n p s else s) = workers q s"
  by (simp_all add: workers_def)

lemma workers_of_downloads:
  "filter (is_worker q) (map (\<lambda>t. (Download_task q' t, False)) ys)
     = (if q' = q then map (\<lambda>t. (Download_task q' t, False)) ys else [])"
  by (induction ys) simp_all

lemma launch:
  "workers q (successCallback q s) = workers q s + launched q s
   \<and> claimed q (successCallback q s) = claimed q s @ take (launched q s) (arrays s q)
   \<and> arrays (successCallback q s) q = drop (launched q s) (arrays s q)
   \<and> trace (successCallback q s)
       = trace s @ Fired ''savestart'' (Some (status s))
           # map (\<lambda>t. Called_downloadTile (url t)) (take (launched q s) (arrays s q))"
  using launched_le [of q s]
  by (simp add: successCallback_eq workers_def claimed_def workers_of_downloads claims_of_downloads)

lemma worker_turn:
  assumes "awaiting s i = Some (Loader_task q)"
  shows "case arrays s q of
           [] \<Rightarrow> workers q (step s (Loader_resumed i)) + 1 = workers q s
                 \<and> arrays (step s (Loader_resumed i)) = arrays s
                 \<and> trace (step s (Loader_resumed i)) = trace s
         | t # ts \<Rightarrow> workers q (step s (Loader_resumed i)) = workers q s
                 \<and> arrays (step s (Loader_resumed i)) q = ts
                 \<and> claimed q (step s (Loader_resumed i)) = claimed q s @ [t]
                 \<and> trace (step s (Loader_resumed i)) = trace s @ [Called_downloadTile (url t)]"
proof (cases "arrays s q")
  case Nil
  with assms workers_settle [OF assms, of q] show ?thesis
    by (simp add: loader_Nil)
next
  case (Cons t ts)
  with assms workers_settle [OF assms, of q] show ?thesis
    by (simp add: loader_def loadTile_def)
qed

lemma download_done:
  assumes "awaiting s i = Some (Download_task q t)"
  shows "workers q (step s (Download_settled i None)) + 1 = workers q s
     \<and> arrays (step s (Download_settled i None)) = arrays s
     \<and> trace (step s (Download_settled i None)) = trace s
     \<and> workers q (step s (Download_settled i (Some b))) = workers q s
     \<and> awaiting (step s (Download_settled i (Some b))) (Suc (length (tasks s))) = Some (Loader_task q)"
  using assms workers_settle [OF assms, of q]
  by (simp add: downloadTile_settled_def saveTile_def Let_def awaiting_def nth_append)

subsection \<open>The all-saved event\<close>

lemma fired_simps [simp]:
  "fired n (called a s) = fired n s + (if is_fired n a then 1 else 0)"
  "fired n (fire n' p s) = fired n s + (if n' = n then 1 else 0)"
  "fired n (pending t s) = fired n s"
  "fired n (settle i s) = fired n s"
  "fired n (s\<lparr>status := x\<rparr>) = fired n s"
  "fired n (s\<lparr>arrays := z\<rparr>) = fired n s"
  by (simp_all add: fired_def)

lemma fired_downloads:
  "filter (is_fired n) (map (\<lambda>t. Called_downloadTile (url t)) ys) = []"
  by (induction ys) simp_all

lemma fired_loaders [simp]: "fired n (loaders k q s) = fired n s"
  by (simp add: fired_def loaders_eq fired_downloads)

lemma fired_loader [simp]: "fired n (loader q s) = fired n s"
  using fired_loaders [of n "Suc 0" q s] by simp

lemma fired_successCallback [simp]:
  "fired n (successCallback q s) = fired n s + (if ''savestart'' = n then 1 else 0)"
  by (simp add: successCallback_def Let_def)

lemma status_loader [simp]: "status (loader q s) = status s"
  using status_loaders [of "Suc 0" q s] by simp

lemma saveend_step:
  assumes "\<not> is_Click_save ev"
  shows "fired ''saveend'' (step s ev)
        = fired ''saveend'' s
          + (if lengthSaved (status (step s ev)) = Suc (lengthSaved (status s))
                \<and> Suc (lengthSaved (status s)) = lengthToBeSaved (status s) then 1 else 0)
     \<and> (lengthSaved (status (step s ev)) = lengthSaved (status s)
         \<or> lengthSaved (status (step s ev)) = Suc (lengthSaved (status s)))"
proof (cases ev)
  case (Click_save m)
  with assms show ?thesis by simp
next
  case Click_rm
  then show ?thesis by (simp add: rmTiles_def rm_successCallback_def)
next
  case Refresh
  then show ?thesis by (simp add: setStorageSize_def)
next
  case (Proceed i)
  then show ?thesis
    by (simp add: rm_successCallback_def split: option.splits task.splits)
next
  case (Count_settled i r)
  then show ?thesis
    by (simp add: getStorageLength_settled_def Let_def split: option.splits task.splits)
next
  case (Truncate_settled i ok)
  then show ?thesis
    by (simp add: truncate_settled_def Let_def split: option.splits task.splits)
next
  case (Download_settled i r)
  then show ?thesis
    by (simp add: downloadTile_settled_def saveTile_def Let_def split: option.splits task.splits)
next
  case (Save_settled i ok)
  then show ?thesis
    by (simp add: saveTile_settled_def setStorageSize_def Let_def split: option.splits task.splits)
next
  case (Loader_resumed i)
  then show ?thesis
    by (simp split: option.splits task.splits)
qed

lemma once_step:
  assumes "counted s" and "once c s" and "\<not> is_Click_save ev"
  shows "once c (step s ev)"
proof -
  from counted_step [OF assms(1,3)]
  have c': "counted (step s ev)"
    and n: "lengthToBeSaved (status (step s ev)) = lengthToBeSaved (status s)" by simp_all
  from c' have le: "lengthSaved (status (step s ev)) \<le> lengthToBeSaved (status (step s ev))"
    by (simp add: counted_def)
  from saveend_step [OF assms(3), of s]
  have a: "fired ''saveend'' (step s ev)
        = fired ''saveend'' s
          + (if lengthSaved (status (step s ev)) = Suc (lengthSaved (status s))
                \<and> Suc (lengthSaved (status s)) = lengthToBeSaved (status s) then 1 else 0)"
    and b: "lengthSaved (status (step s ev)) = lengthSaved (status s)
         \<or> lengthSaved (status (step s ev)) = Suc (lengthSaved (status s))"
    by blast+
  show ?thesis
  proof (cases "lengthSaved (status (step s ev)) = lengthSaved (status s)")
    case True
    with a assms(2) n show ?thesis by (simp add: once_def)
  next
    case False
    with b have e: "lengthSaved (status (step s ev)) = Suc (lengthSaved (status s))" by simp
    with le n have "lengthSaved (status s) < lengthToBeSaved (status s)" by simp
    with a e assms(2) n show ?thesis by (simp add: once_def)
  qed
qed

lemma once_run:
  "counted s \<Longrightarrow> once c s \<Longrightarrow> list_all (\<lambda>ev. \<not> is_Click_save ev) evs \<Longrightarrow> once c (run s evs)"
proof (induction evs arbitrary: s)
  case Nil
  then show ?case by simp
next
  case (Cons ev evs)
  from Cons.prems have "counted (step s ev)" and "once c (step s ev)"
    using counted_step [of s ev] once_step [of s c ev] by simp_all
  with Cons.IH [of "step s ev"] Cons.prems show ?case by simp
qed

lemma fired_save_reset [simp]: "fired n (save_reset tiles s) = fired n s"
  by (simp add: fired_def)

lemma once_saveTiles:
  assumes "saveTiles m s = Inr s1"
  shows "once (fired ''saveend'' s) s1"
proof -
  from assms obtain zs where "s1 = save_gate (save_reset (save_tiles m s zs) s)"
    by (auto dest!: saveTiles_Inr)
  then show ?thesis by (simp add: once_def save_gate_def)
qed

subsection \<open>A gate that stays shut\<close>

lemma resting_simps [simp]:
  "resting n arr (t, True)"
  "resting n arr (Count_task, b)"
  "resting n arr (Truncate_task, b)"
  "resting n arr (ConfirmRemoval_task, b)"
  "\<not> resting n arr (Download_task q x, False)"
  "\<not> resting n arr (Save_task x y, False)"
  "resting n arr (Loader_task q, False) = (q < n \<and> arr q = [])"
  "resting n arr (Confirm_task q, False) = (q < n \<and> arr q = [])"
  by (simp_all add: resting_def)

lemma held_awaiting:
  assumes "held i0 s" and "awaiting s i = Some t"
  shows "(i = i0 \<and> (\<exists>a. t = Confirm_task a)) \<or> (i \<noteq> i0 \<and> resting (next_array s) (arrays s) (t, False))"
  using assms by (cases "i = i0") (auto simp: held_def dest!: awaitingD)

lemma held_settle:
  assumes "held i0 s" and "i \<noteq> i0"
  shows "held i0 (settle i s)"
  using assms by (cases "i < length (tasks s)") (auto simp: held_def nth_list_update list_update_beyond)

lemma held_pending:
  assumes "held i0 s" and "resting (next_array s) (arrays s) (t, False)"
  shows "held i0 (pending t s)"
  using assms by (auto simp: held_def nth_append less_Suc_eq)

lemma held_frame:
  assumes "held i0 s" and "tasks s' = tasks s" and "arrays s' = arrays s"
    and "next_array s' = next_array s"
  shows "held i0 s'"
  using assms by (simp add: held_def)

lemma download_calls_simps [simp]:
  "download_calls (called a s) = download_calls s @ (if is_download a then [a] else [])"
  "download_calls (fire n p s) = download_calls s"
  "download_calls (pending t s) = download_calls s"
  "download_calls (settle i s) = download_calls s"
  "download_calls (s\<lparr>status := x\<rparr>) = download_calls s"
  "download_calls (if c then fire n p s else s) = download_calls s"
  by (simp_all add: download_calls_def fire_def)

lemma successCallback_empty:
  "arrays s q = [] \<Longrightarrow> successCallback q s = fire ''savestart'' (Some (status s)) s"
  by (simp add: successCallback_def Let_def)

lemma held_step:
  assumes "held i0 s" and "\<not> is_Click_save ev" and "ev \<noteq> Proceed i0"
  shows "held i0 (step s ev) \<and> same_run s (step s ev)"
proof (cases ev)
  case (Click_save m)
  with assms show ?thesis by simp
next
  case Click_rm
  with assms(1) show ?thesis
    by (simp add: rmTiles_def rm_successCallback_def same_run_def held_pending held_frame)
next
  case Refresh
  with assms(1) show ?thesis
    by (simp add: setStorageSize_def same_run_def held_pending held_frame)
next
  case (Proceed i)
  show ?thesis
  proof (cases "awaiting s i")
    case None
    with Proceed assms(1) show ?thesis by (simp add: same_run_def)
  next
    case (Some t)
    with assms(1,3) Proceed have r: "i \<noteq> i0" "resting (next_array s) (arrays s) (t, False)"
      using held_awaiting [OF assms(1) Some] by auto
    show ?thesis
    proof (cases t)
      case (Confirm_task q)
      with r have "arrays s q = []" by simp
      with Proceed Some Confirm_task assms(1) show ?thesis
        by (simp add: successCallback_empty same_run_def held_frame)
    next
      case ConfirmRemoval_task
      with Proceed Some assms(1) show ?thesis
        by (simp add: rm_successCallback_def same_run_def held_pending held_frame)
    qed (use Proceed Some assms(1) in \<open>simp_all add: same_run_def\<close>)
  qed
next
  case (Count_settled i r)
  show ?thesis
  proof (cases "awaiting s i")
    case None
    with Count_settled assms(1) show ?thesis by (simp add: same_run_def)
  next
    case (Some t)
    show ?thesis
    proof (cases t)
      case Count_task
      with held_awaiting [OF assms(1) Some] have "i \<noteq> i0" by auto
      with assms(1) have "held i0 (settle i s)" by (rule held_settle)
      with Count_settled Some Count_task show ?thesis
        by (cases r) (simp_all add: getStorageLength_settled_def Let_def same_run_def held_frame)
    qed (use Count_settled Some assms(1) in \<open>simp_all add: same_run_def\<close>)
  qed
next
  case (Truncate_settled i ok)
  show ?thesis
  proof (cases "awaiting s i")
    case None
    with Truncate_settled assms(1) show ?thesis by (simp add: same_run_def)
  next
    case (Some t)
    show ?thesis
    proof (cases t)
      case Truncate_task
      with held_awaiting [OF assms(1) Some] have "i \<noteq> i0" by auto
      with assms(1) have "held i0 (settle i s)" by (rule held_settle)
      with Truncate_settled Some Truncate_task show ?thesis
        by (simp add: truncate_settled_def Let_def same_run_def held_frame)
    qed (use Truncate_settled Some assms(1) in \<open>simp_all add: same_run_def\<close>)
  qed
next
  case (Download_settled i r)
  show ?thesis
  proof (cases "awaiting s i")
    case None
    with Download_settled assms(1) show ?thesis by (simp add: same_run_def)
  next
    case (Some t)
    show ?thesis
    proof (cases t)
      case (Download_task q tile)
      with held_awaiting [OF assms(1) Some] show ?thesis by auto
    qed (use Download_settled Some assms(1) in \<open>simp_all add: same_run_def\<close>)
  qed
next
  case (Save_settled i ok)
  show ?thesis
  proof (cases "awaiting s i")
    case None
    with Save_settled assms(1) show ?thesis by (simp add: same_run_def)
  next
    case (Some t)
    show ?thesis
    proof (cases t)
      case (Save_task tile b)
      with held_awaiting [OF assms(1) Some] show ?thesis by auto
    qed (use Save_settled Some assms(1) in \<open>simp_all add: same_run_def\<close>)
  qed
next
  case (Loader_resumed i)
  show ?thesis
  proof (cases "awaiting s i")
    case None
    with Loader_resumed assms(1) show ?thesis by (simp add: same_run_def)
  next
    case (Some t)
    show ?thesis
    proof (cases t)
      case (Loader_task q)
      with held_awaiting [OF assms(1) Some] have "i \<noteq> i0" and "arrays s q = []" by auto
      with assms(1) have "held i0 (settle i s)" and "loader q (settle i s) = settle i s"
        by (simp_all add: held_settle loader_Nil)
      with Loader_resumed Some Loader_task show ?thesis
        by (simp add: same_run_def)
    qed (use Loader_resumed Some assms(1) in \<open>simp_all add: same_run_def\<close>)
  qed
qed

lemma same_run_trans: "same_run s s' \<Longrightarrow> same_run s' s'' \<Longrightarrow> same_run s s''"
  by (simp add: same_run_def)

lemma held_run:
  "held i0 s \<Longrightarrow> list_all (\<lambda>ev. \<not> is_Click_save ev \<and> ev \<noteq> Proceed i0) evs \<Longrightarrow>
   held i0 (run s evs) \<and> same_run s (run s evs)"
proof (induction evs arbitrary: s)
  case Nil
  then show ?case by (simp add: same_run_def)
next
  case (Cons ev evs)
  from Cons.prems have h: "held i0 (step s ev)" and r: "same_run s (step s ev)"
    using held_step [of i0 s ev] by simp_all
  from Cons.IH [OF h] Cons.prems have "held i0 (run (step s ev) evs)"
    and "same_run (step s ev) (run (step s ev) evs)" by simp_all
  with r show ?case by (auto intro: same_run_trans)
qed

lemma held_save_gate:
  assumes "idle s" and "confirm (options s)"
  shows "held (length (tasks s)) (save_gate (save_reset tiles s))"
proof -
  have "resting (Suc (next_array s)) ((arrays s)(next_array s := tiles)) (tasks s ! i)"
    if "i < length (tasks s)" for i
  proof -
    from assms(1) that have r: "resting (next_array s) (arrays s) (tasks s ! i)"
      by (simp add: idle_def list_all_length)
    obtain t b where p: "tasks s ! i = (t, b)" by (cases "tasks s ! i")
    with r show ?thesis by (cases t; cases b) (auto simp: resting_def)
  qed
  with assms(2) show ?thesis
    by (auto simp: held_def save_gate_def nth_append less_Suc_eq)
qed

subsection \<open>What moves the counters\<close>

lemma counters_step:
  assumes "\<not> is_Click_save ev"
  shows "lengthLoaded (status (step s ev))
        = lengthLoaded (status s) + (if download_succeeds s ev then 1 else 0)
     \<and> lengthSaved (status (step s ev))
        = lengthSaved (status s) + (if save_succeeds s ev then 1 else 0)"
proof (cases ev)
  case (Click_save m)
  with assms show ?thesis by simp
next
  case Click_rm
  then show ?thesis by (simp add: rmTiles_def rm_successCallback_def)
next
  case Refresh
  then show ?thesis by (simp add: setStorageSize_def)
next
  case (Proceed i)
  then show ?thesis
    by (simp add: rm_successCallback_def split: option.splits task.splits)
next
  case (Count_settled i r)
  then show ?thesis
    by (simp add: getStorageLength_settled_def Let_def split: option.splits task.splits)
next
  case (Truncate_settled i ok)
  then show ?thesis
    by (simp add: truncate_settled_def Let_def split: option.splits task.splits)
next
  case (Download_settled i r)
  then show ?thesis
    by (cases r) (simp_all add: downloadTile_settled_def saveTile_def Let_def
        split: option.splits task.splits)
next
  case (Save_settled i ok)
  then show ?thesis
    by (cases ok) (simp_all add: saveTile_settled_def setStorageSize_def Let_def
        split: option.splits task.splits)
next
  case (Loader_resumed i)
  then show ?thesis
    by (simp split: option.splits task.splits)
qed

section \<open>The claims\<close>

subsection \<open>C1: the counters of a run\<close>

text \<open>
  Claim C1, as the code has it. Take a control that is idle, a save request that passes
  the zoom check, and any sequence of later inputs among which there is no further click
  on the save button. Then at every instant \<open>lengthSaved \<le> lengthLoaded \<le> lengthToBeSaved\<close>,
  and \<open>lengthToBeSaved\<close> keeps the value the reset gave it. (A prefix of such a sequence
  is such a sequence, so the statement covers every instant of the run.) More precisely,
  the tiles saved and the tiles being written are at most the tiles loaded, and the tiles
  loaded, the tiles being downloaded and the tiles still in the work list are at most
  \<open>lengthToBeSaved\<close>. And in any state, an input other than a click on the save
  button adds one to \<open>lengthLoaded\<close> when it is the success of an awaited download
  and leaves it alone otherwise, and adds one to \<open>lengthSaved\<close> when it is the
  success of an awaited write and leaves it alone otherwise.
\<close>

theorem counters_ordered_in_a_run:
  assumes "idle s" and "saveTiles m s = Inr s1"
    and "list_all (\<lambda>ev. \<not> is_Click_save ev) evs"
    and "\<not> is_Click_save ev"
  shows "lengthSaved (status (run s1 evs)) \<le> lengthLoaded (status (run s1 evs))
    \<and> lengthLoaded (status (run s1 evs)) \<le> lengthToBeSaved (status (run s1 evs))
    \<and> lengthToBeSaved (status (run s1 evs)) = lengthToBeSaved (status s1)
    \<and> lengthSaved (status (run s1 evs)) + saves_in_flight (run s1 evs)
         \<le> lengthLoaded (status (run s1 evs))
    \<and> lengthLoaded (status (run s1 evs)) + downloads_in_flight (run s1 evs)
         + length (arrays (run s1 evs) (tilesforSave (status s1)))
         \<le> lengthToBeSaved (status s1)
    \<and> lengthLoaded (status (step s2 ev))
        = lengthLoaded (status s2) + (if download_succeeds s2 ev then 1 else 0)
    \<and> lengthSaved (status (step s2 ev))
        = lengthSaved (status s2) + (if save_succeeds s2 ev then 1 else 0)"
proof -
  have "counted s1" using assms(1,2) by (rule counted_saveTiles)
  then have "counted (run s1 evs)"
    and "lengthToBeSaved (status (run s1 evs)) = lengthToBeSaved (status s1)"
    and "tilesforSave (status (run s1 evs)) = tilesforSave (status s1)"
    using counted_run [of s1 evs] assms(3) by simp_all
  with counters_step [OF assms(4), of s2] show ?thesis by (simp add: counted_def)
qed

text \<open>
  The theorem at a run of two tiles: the first download succeeds, the worker takes its
  next turn, and the write of the first tile succeeds. A download that succeeds counts,
  one that is rejected does not.
\<close>

theorem counters_ordered_in_a_run_witness:
  "idle (savetiles defaults)
   \<and> saveTiles two_tile_map (savetiles defaults) = Inr clicked_state
   \<and> lengthSaved (status (run clicked_state
         [Download_settled 1 (Some ''x''), Loader_resumed 4, Save_settled 3 True]))
       \<le> lengthLoaded (status (run clicked_state
         [Download_settled 1 (Some ''x''), Loader_resumed 4, Save_settled 3 True]))
   \<and> lengthLoaded (status (run clicked_state
         [Download_settled 1 (Some ''x''), Loader_resumed 4, Save_settled 3 True]))
       \<le> lengthToBeSaved (status (run clicked_state
         [Download_settled 1 (Some ''x''), Loader_resumed 4, Save_settled 3 True]))
   \<and> lengthLoaded (status (step clicked_state (Download_settled 1 (Some ''x''))))
       = lengthLoaded (status clicked_state) + 1
   \<and> lengthLoaded (status (step clicked_state (Download_settled 1 None)))
       = lengthLoaded (status clicked_state)"
proof -
  have h1: "idle (savetiles defaults)" by code_simp
  have h2: "saveTiles two_tile_map (savetiles defaults) = Inr clicked_state"
    by (simp add: clicked_state_def saveTiles_def save_zoomlevels_def defaults_def savetiles_def
        setStorageSize_def)
  have h3: "list_all (\<lambda>ev. \<not> is_Click_save ev)
     [Download_settled 1 (Some ''x''), Loader_resumed 4, Save_settled 3 True]" by simp
  have h4: "\<not> is_Click_save (Download_settled 1 (Some ''x''))"
    and h5: "\<not> is_Click_save (Download_settled 1 None)" by simp_all
  have d: "download_succeeds clicked_state (Download_settled 1 (Some ''x''))" by code_simp
  note a = counters_ordered_in_a_run [OF h1 h2 h3 h4, of clicked_state]
  note b = counters_ordered_in_a_run [OF h1 h2 h3 h5, of clicked_state]
  show ?thesis
    using h1 h2 a b d by (simp del: run.simps step.simps)
qed

text \<open>
  Claim C1 as stated, for every save run, fails when a second save is requested while
  the first is still at work: the reset replaces the record, and the completions of the
  first run count into it. Two clicks on a map of one tile, then both downloads: two
  tiles loaded, one to be saved. One click, its download, a second click, then the write
  of the first tile: one tile saved, none loaded.
\<close>

theorem counters_unordered_when_runs_overlap:
  "\<not> lengthLoaded (status (run (savetiles defaults)
        [Click_save one_tile_map, Click_save one_tile_map,
         Download_settled 1 (Some ''x''), Download_settled 2 (Some ''y'')]))
      \<le> lengthToBeSaved (status (run (savetiles defaults)
        [Click_save one_tile_map, Click_save one_tile_map,
         Download_settled 1 (Some ''x''), Download_settled 2 (Some ''y'')]))
   \<and> \<not> lengthSaved (status (run (savetiles defaults)
        [Click_save one_tile_map, Download_settled 1 (Some ''x''), Loader_resumed 3,
         Click_save one_tile_map, Save_settled 2 True]))
      \<le> lengthLoaded (status (run (savetiles defaults)
        [Click_save one_tile_map, Download_settled 1 (Some ''x''), Loader_resumed 3,
         Click_save one_tile_map, Save_settled 2 True]))"
  by code_simp

subsection \<open>C2: the worker loops\<close>

text \<open>
  Claim C2, as the code has it. The gate: with a hook nothing is launched until the hook
  calls back, and each call of the callback is \<open>successCallback\<close>; without a hook
  \<open>successCallback\<close> runs at once. \<open>successCallback\<close> on an array launches
  \<open>min(tiles.length, parallel)\<close> workers (none when that is not positive), and they claim
  that many tiles from the front of the array. A worker at its turn takes the first
  remaining tile and starts its download; on an empty array it ends. A worker whose
  download is rejected ends as well, whatever is left in the array; a worker whose
  download succeeds gets another turn. And no tile is claimed twice: at every instant
  the tiles claimed from an array so far, in the order of the claims, followed by the
  tiles still in it, are the array as it was.
\<close>

theorem worker_loops:
  "(if confirm (options s)
    then awaiting (save_gate s) (length (tasks s)) = Some (Confirm_task (tilesforSave (status s)))
       \<and> workers q (save_gate s) = workers q s
    else save_gate s = successCallback (tilesforSave (status s)) s)
   \<and> (awaiting s i = Some (Confirm_task q) \<longrightarrow> step s (Proceed i) = successCallback q s)
   \<and> workers q (successCallback q s) = workers q s + launched q s
   \<and> claimed q (successCallback q s) = claimed q s @ take (launched q s) (arrays s q)
   \<and> arrays (successCallback q s) q = drop (launched q s) (arrays s q)
   \<and> (awaiting s i = Some (Loader_task q) \<longrightarrow>
        (case arrays s q of
           [] \<Rightarrow> workers q (step s (Loader_resumed i)) + 1 = workers q s
                 \<and> arrays (step s (Loader_resumed i)) = arrays s
                 \<and> trace (step s (Loader_resumed i)) = trace s
         | t # ts \<Rightarrow> workers q (step s (Loader_resumed i)) = workers q s
                 \<and> arrays (step s (Loader_resumed i)) q = ts
                 \<and> claimed q (step s (Loader_resumed i)) = claimed q s @ [t]
                 \<and> trace (step s (Loader_resumed i)) = trace s @ [Called_downloadTile (url t)]))
   \<and> (awaiting s i = Some (Download_task q tile) \<longrightarrow>
        workers q (step s (Download_settled i None)) + 1 = workers q s
        \<and> arrays (step s (Download_settled i None)) = arrays s
        \<and> trace (step s (Download_settled i None)) = trace s
        \<and> workers q (step s (Download_settled i (Some b))) = workers q s
        \<and> awaiting (step s (Download_settled i (Some b))) (Suc (length (tasks s)))
            = Some (Loader_task q))
   \<and> (q < next_array s \<longrightarrow>
        claimed q (run s evs) @ arrays (run s evs) q = claimed q s @ arrays s q)"
proof -
  have gate: "if confirm (options s)
    then awaiting (save_gate s) (length (tasks s)) = Some (Confirm_task (tilesforSave (status s)))
       \<and> workers q (save_gate s) = workers q s
    else save_gate s = successCallback (tilesforSave (status s)) s"
    by (simp add: save_gate_def awaiting_def)
  have proceed: "awaiting s i = Some (Confirm_task q) \<longrightarrow> step s (Proceed i) = successCallback q s"
    by simp
  from gate proceed launch [of q s] worker_turn [of s i q] download_done [of s i q tile b]
    kept_run [of q s evs]
  show ?thesis by blast
qed

text \<open>
  The theorem at a run of two tiles with one worker at a time and a hook: nothing is
  launched before the hook calls back, one worker after; it claims the first tile, and
  after that download the second; a second call of the callback claims nothing twice.
\<close>

theorem worker_loops_witness:
  "awaiting gated_state 1 = Some (Confirm_task 1)
   \<and> workers 1 gated_state = 0
   \<and> arrays gated_state 1 = [tile_a, tile_b]
   \<and> launched 1 gated_state = 1
   \<and> workers 1 (step gated_state (Proceed 1)) = 1
   \<and> arrays (step gated_state (Proceed 1)) 1 = [tile_b]
   \<and> awaiting loading_state 2 = Some (Download_task 1 tile_a)
   \<and> workers 1 (step loading_state (Download_settled 2 (Some ''x''))) = workers 1 loading_state
   \<and> awaiting working_state 4 = Some (Loader_task 1)
   \<and> arrays (step working_state (Loader_resumed 4)) 1 = []
   \<and> claimed 1 (step working_state (Loader_resumed 4)) = claimed 1 working_state @ [tile_b]
   \<and> claimed 1 (run gated_state [Proceed 1, Download_settled 2 (Some ''x''), Loader_resumed 4, Proceed 1])
       @ arrays (run gated_state [Proceed 1, Download_settled 2 (Some ''x''), Loader_resumed 4, Proceed 1]) 1
       = [tile_a, tile_b]"
proof -
  have g1: "awaiting gated_state 1 = Some (Confirm_task 1)" by code_simp
  have g2: "workers 1 gated_state = 0" by code_simp
  have g3: "arrays gated_state 1 = [tile_a, tile_b]" by code_simp
  have g4: "launched 1 gated_state = 1" by code_simp
  have g5: "claimed 1 gated_state = []" by code_simp
  have g6: "1 < next_array gated_state" by code_simp
  have l1: "awaiting loading_state 2 = Some (Download_task 1 tile_a)" by code_simp
  have w1: "awaiting working_state 4 = Some (Loader_task 1)" by code_simp
  have w2: "arrays working_state 1 = [tile_b]" by code_simp
  note a = worker_loops [where s = gated_state and q = 1 and i = 1
      and evs = "[Proceed 1, Download_settled 2 (Some ''x''), Loader_resumed 4, Proceed 1]"]
  note b = worker_loops [where s = loading_state and q = 1 and i = 2 and tile = tile_a and b = "''x''"]
  note c = worker_loops [where s = working_state and q = 1 and i = 4]
  have "step gated_state (Proceed 1) = successCallback 1 gated_state"
    using a g1 by blast
  moreover have "workers 1 (successCallback 1 gated_state) = workers 1 gated_state + launched 1 gated_state"
    and "arrays (successCallback 1 gated_state) 1 = drop (launched 1 gated_state) (arrays gated_state 1)"
    using a by blast+
  moreover have "claimed 1 (run gated_state [Proceed 1, Download_settled 2 (Some ''x''), Loader_resumed 4, Proceed 1])
       @ arrays (run gated_state [Proceed 1, Download_settled 2 (Some ''x''), Loader_resumed 4, Proceed 1]) 1
       = claimed 1 gated_state @ arrays gated_state 1"
    using a g6 by blast
  moreover have "workers 1 (step loading_state (Download_settled 2 (Some ''x''))) = workers 1 loading_state"
    using b l1 by blast
  moreover have "arrays (step working_state (Loader_resumed 4)) 1 = []
      \<and> claimed 1 (step working_state (Loader_resumed 4)) = claimed 1 working_state @ [tile_b]"
    using c w1 w2 by simp
  ultimately show ?thesis
    using g1 g2 g3 g4 g5 l1 w1 by simp
qed

text \<open>
  Claim C2 as stated, a worker loop terminates exactly when the list is empty, fails
  when a download is rejected: the one worker of the run is gone and the second tile is
  still in the list.
\<close>

theorem worker_stops_on_failed_download:
  "workers 1 (step (savetiles (defaults\<lparr>parallel := 1\<rparr>)) (Click_save two_tile_map)) = 1
   \<and> workers 1 failed_state = 0
   \<and> arrays failed_state 1 = [tile_b]"
  by code_simp

subsection \<open>C3: the all-saved event\<close>

text \<open>
  Claim C3, as the code has it. In a run that starts on an idle control and that no
  other save request overlaps, \<open>saveend\<close> has been fired once as soon as \<open>lengthSaved\<close>
  has reached \<open>lengthToBeSaved\<close>, provided the run has a tile at all, and not before:
  so at most once, and never when a download or a write has failed or the work list is
  empty. In any state, a write that succeeds fires \<open>saveend\<close> exactly when it makes
  \<open>lengthSaved\<close> equal to \<open>lengthToBeSaved\<close>, a write that fails fires nothing, and
  the firing is followed by one call of \<open>setStorageSize\<close>, which counts the stored tiles
  again when the cached size is 0.
\<close>

theorem all_saved_fires_at_the_last_write:
  assumes "idle s" and "saveTiles m s = Inr s1"
    and "list_all (\<lambda>ev. \<not> is_Click_save ev) evs"
    and "awaiting s2 i = Some (Save_task tile b)"
  shows "fired ''saveend'' (run s1 evs)
       = fired ''saveend'' s
         + (if lengthSaved (status (run s1 evs)) = lengthToBeSaved (status s1)
               \<and> 0 < lengthToBeSaved (status s1) then 1 else 0)
     \<and> fired ''saveend'' (step s2 (Save_settled i ok))
       = fired ''saveend'' s2
         + (if ok \<and> Suc (lengthSaved (status s2)) = lengthToBeSaved (status s2) then 1 else 0)
     \<and> (if Suc (lengthSaved (status s2)) = lengthToBeSaved (status s2)
       then step s2 (Save_settled i True)
          = snd (setStorageSize
              (fire ''saveend'' (Some ((status s2)\<lparr>lengthSaved := Suc (lengthSaved (status s2))\<rparr>))
                (fire ''savetileend'' (Some ((status s2)\<lparr>lengthSaved := Suc (lengthSaved (status s2))\<rparr>))
                  ((settle i s2)\<lparr>status := (status s2)\<lparr>lengthSaved := Suc (lengthSaved (status s2))\<rparr>\<rparr>))))
       else trace (step s2 (Save_settled i True))
          = trace s2
            @ [Fired ''savetileend'' (Some ((status s2)\<lparr>lengthSaved := Suc (lengthSaved (status s2))\<rparr>))])
     \<and> (Suc (lengthSaved (status s2)) = lengthToBeSaved (status s2) \<and> storagesize (status s2) = 0 \<longrightarrow>
         trace (step s2 (Save_settled i True))
           = trace s2
             @ [Fired ''savetileend'' (Some ((status s2)\<lparr>lengthSaved := Suc (lengthSaved (status s2))\<rparr>)),
                Fired ''saveend'' (Some ((status s2)\<lparr>lengthSaved := Suc (lengthSaved (status s2))\<rparr>)),
                Called_getStorageLength]
         \<and> awaiting (step s2 (Save_settled i True)) (length (tasks s2)) = Some Count_task)"
proof -
  have c: "counted s1" using assms(1,2) by (rule counted_saveTiles)
  have "once (fired ''saveend'' s) s1" using assms(2) by (rule once_saveTiles)
  with c have "once (fired ''saveend'' s) (run s1 evs)"
    using assms(3) by (rule once_run)
  moreover have "lengthToBeSaved (status (run s1 evs)) = lengthToBeSaved (status s1)"
    using counted_run [OF c assms(3)] by simp
  ultimately have run_level: "fired ''saveend'' (run s1 evs)
       = fired ''saveend'' s
         + (if lengthSaved (status (run s1 evs)) = lengthToBeSaved (status s1)
               \<and> 0 < lengthToBeSaved (status s1) then 1 else 0)"
    by (simp add: once_def)
  have step_level: "fired ''saveend'' (step s2 (Save_settled i ok))
       = fired ''saveend'' s2
         + (if ok \<and> Suc (lengthSaved (status s2)) = lengthToBeSaved (status s2) then 1 else 0)"
    using assms(4) by (simp add: saveTile_settled_def setStorageSize_def Let_def)
  have refresh: "if Suc (lengthSaved (status s2)) = lengthToBeSaved (status s2)
       then step s2 (Save_settled i True)
          = snd (setStorageSize
              (fire ''saveend'' (Some ((status s2)\<lparr>lengthSaved := Suc (lengthSaved (status s2))\<rparr>))
                (fire ''savetileend'' (Some ((status s2)\<lparr>lengthSaved := Suc (lengthSaved (status s2))\<rparr>))
                  ((settle i s2)\<lparr>status := (status s2)\<lparr>lengthSaved := Suc (lengthSaved (status s2))\<rparr>\<rparr>))))
       else trace (step s2 (Save_settled i True))
          = trace s2
            @ [Fired ''savetileend'' (Some ((status s2)\<lparr>lengthSaved := Suc (lengthSaved (status s2))\<rparr>))]"
    using assms(4) by (simp add: saveTile_settled_def Let_def)
  have recount: "Suc (lengthSaved (status s2)) = lengthToBeSaved (status s2) \<and> storagesize (status s2) = 0 \<longrightarrow>
         trace (step s2 (Save_settled i True))
           = trace s2
             @ [Fired ''savetileend'' (Some ((status s2)\<lparr>lengthSaved := Suc (lengthSaved (status s2))\<rparr>)),
                Fired ''saveend'' (Some ((status s2)\<lparr>lengthSaved := Suc (lengthSaved (status s2))\<rparr>)),
                Called_getStorageLength]
         \<and> awaiting (step s2 (Save_settled i True)) (length (tasks s2)) = Some Count_task"
    using assms(4) by (simp add: saveTile_settled_def setStorageSize_def Let_def awaiting_def nth_append)
  from run_level step_level refresh recount show ?thesis by blast
qed

text \<open>
  The theorem at a run of one tile on an empty store: nothing fired after the download,
  \<open>saveend\<close> fired once after the write, followed by the call of \<open>getStorageLength\<close>.
\<close>

theorem all_saved_fires_at_the_last_write_witness:
  "idle (savetiles defaults)
   \<and> saveTiles one_tile_map (savetiles defaults)
       = Inr (step (savetiles defaults) (Click_save one_tile_map))
   \<and> awaiting saving_state 2 = Some (Save_task tile_a ''x'')
   \<and> fired ''saveend'' (run (step (savetiles defaults) (Click_save one_tile_map))
         [Download_settled 1 (Some ''x'')]) = 0
   \<and> fired ''saveend'' (run (step (savetiles defaults) (Click_save one_tile_map))
         [Download_settled 1 (Some ''x''), Loader_resumed 3, Save_settled 2 True]) = 1
   \<and> fired ''saveend'' (step saving_state (Save_settled 2 False)) = 0
   \<and> trace (step saving_state (Save_settled 2 True))
       = trace saving_state
         @ [Fired ''savetileend'' (Some \<lparr>tilesforSave = 1, storagesize = 0, lengthToBeSaved = 1,
                                           lengthSaved = 1, lengthLoaded = 1\<rparr>),
            Fired ''saveend'' (Some \<lparr>tilesforSave = 1, storagesize = 0, lengthToBeSaved = 1,
                                       lengthSaved = 1, lengthLoaded = 1\<rparr>),
            Called_getStorageLength]"
proof -
  have h1: "idle (savetiles defaults)" by code_simp
  have h2: "saveTiles one_tile_map (savetiles defaults)
       = Inr (step (savetiles defaults) (Click_save one_tile_map))"
    by (simp add: saveTiles_def save_zoomlevels_def defaults_def savetiles_def setStorageSize_def)
  have h3: "list_all (\<lambda>ev. \<not> is_Click_save ev) [Download_settled 1 (Some ''x'')]" by simp
  have h3': "list_all (\<lambda>ev. \<not> is_Click_save ev)
      [Download_settled 1 (Some ''x''), Loader_resumed 3, Save_settled 2 True]" by simp
  have h4: "awaiting saving_state 2 = Some (Save_task tile_a ''x'')" by code_simp
  have f0: "fired ''saveend'' (savetiles defaults) = 0" by code_simp
  have f1: "fired ''saveend'' saving_state = 0" by code_simp
  have n: "lengthToBeSaved (status (step (savetiles defaults) (Click_save one_tile_map))) = 1"
    by code_simp
  have l0: "lengthSaved (status (run (step (savetiles defaults) (Click_save one_tile_map))
         [Download_settled 1 (Some ''x'')])) = 0" by code_simp
  have l1: "lengthSaved (status (run (step (savetiles defaults) (Click_save one_tile_map))
         [Download_settled 1 (Some ''x''), Loader_resumed 3, Save_settled 2 True])) = 1" by code_simp
  have st: "status saving_state
      = \<lparr>tilesforSave = 1, storagesize = 0, lengthToBeSaved = 1, lengthSaved = 0, lengthLoaded = 1\<rparr>"
    by code_simp
  note a = all_saved_fires_at_the_last_write [OF h1 h2 h3 h4, of False]
  note b = all_saved_fires_at_the_last_write [OF h1 h2 h3' h4, of True]
  have "fired ''saveend'' (run (step (savetiles defaults) (Click_save one_tile_map))
         [Download_settled 1 (Some ''x'')]) = 0"
    using a f0 n l0 by (simp del: run.simps step.simps)
  moreover have "fired ''saveend'' (run (step (savetiles defaults) (Click_save one_tile_map))
         [Download_settled 1 (Some ''x''), Loader_resumed 3, Save_settled 2 True]) = 1"
    using b f0 n l1 by (simp del: run.simps step.simps)
  moreover have "fired ''saveend'' (step saving_state (Save_settled 2 False)) = 0"
    using a f1 by (simp del: run.simps step.simps)
  moreover have "trace (step saving_state (Save_settled 2 True))
       = trace saving_state
         @ [Fired ''savetileend'' (Some \<lparr>tilesforSave = 1, storagesize = 0, lengthToBeSaved = 1,
                                           lengthSaved = 1, lengthLoaded = 1\<rparr>),
            Fired ''saveend'' (Some \<lparr>tilesforSave = 1, storagesize = 0, lengthToBeSaved = 1,
                                       lengthSaved = 1, lengthLoaded = 1\<rparr>),
            Called_getStorageLength]"
  proof -
    have "Suc (lengthSaved (status saving_state)) = lengthToBeSaved (status saving_state)
        \<and> storagesize (status saving_state) = 0"
      by (simp add: st)
    with b have "trace (step saving_state (Save_settled 2 True))
           = trace saving_state
             @ [Fired ''savetileend''
                  (Some ((status saving_state)\<lparr>lengthSaved := Suc (lengthSaved (status saving_state))\<rparr>)),
                Fired ''saveend''
                  (Some ((status saving_state)\<lparr>lengthSaved := Suc (lengthSaved (status saving_state))\<rparr>)),
                Called_getStorageLength]"
      by blast
    then show ?thesis by (simp add: st)
  qed
  ultimately show ?thesis using h1 h2 h4 by (simp del: run.simps step.simps)
qed

text \<open>
  Claim C3 as stated fails in two ways. After a rejected download the run is over
  (no worker, nothing in flight) and \<open>saveend\<close> was never fired. And when the cached
  size is not 0, here 7, the last write fires \<open>saveend\<close> and no count follows: no call
  of \<open>getStorageLength\<close>, no new task.
\<close>

theorem all_saved_not_always_once_nor_recounted:
  "fired ''saveend'' failed_state = 0
   \<and> workers 1 failed_state = 0
   \<and> downloads_in_flight failed_state = 0
   \<and> saves_in_flight failed_state = 0
   \<and> arrays failed_state 1 = [tile_b]
   \<and> awaiting cached_state 2 = Some (Save_task tile_a ''x'')
   \<and> trace (step cached_state (Save_settled 2 True))
       = trace cached_state
         @ [Fired ''savetileend'' (Some \<lparr>tilesforSave = 1, storagesize = 7, lengthToBeSaved = 1,
                                           lengthSaved = 1, lengthLoaded = 1\<rparr>),
            Fired ''saveend'' (Some \<lparr>tilesforSave = 1, storagesize = 7, lengthToBeSaved = 1,
                                       lengthSaved = 1, lengthLoaded = 1\<rparr>)]
   \<and> length (tasks (step cached_state (Save_settled 2 True))) = length (tasks cached_state)"
  by code_simp

subsection \<open>C4: the work list\<close>

text \<open>
  Claim C4, as the code has it. The work list is the concatenation, over the requested
  zoom levels in the order of the request, of the tiles the layer enumerates for the
  rectangle of the two projected corners at that level. When saving what you see the
  levels are the current zoom up to \<open>maxZoom\<close>, ascending; otherwise they are the
  configured list as it was given, or the current zoom alone.
\<close>

theorem tile_list_in_request_order:
  assumes "save_zoomlevels m s = Inr zs"
  shows "save_tiles m s zs = concat (map (level_tiles m (save_bounds m s)) zs)
    \<and> (if saveWhatYouSee (options s)
       then zs = [getZoom m..maxZoom (options s)] \<and> sorted zs
       else zs = (case zoomlevels (options s) of Some l \<Rightarrow> l | None \<Rightarrow> [getZoom m]))"
  using assms
  by (auto simp: save_tiles_def save_bounds_def concat_tiles_eq save_zoomlevels_def Let_def
      push_zooms_eq split: if_splits)

text \<open>Saving what you see at zoom 10 with \<open>maxZoom\<close> 11: the levels 10 and 11.\<close>

theorem tile_list_in_request_order_witness:
  "save_zoomlevels one_tile_map (savetiles (defaults\<lparr>saveWhatYouSee := True, maxZoom := 11\<rparr>))
     = Inr [10, 11]
   \<and> save_tiles one_tile_map (savetiles (defaults\<lparr>saveWhatYouSee := True, maxZoom := 11\<rparr>)) [10, 11]
     = [tile_a, tile_a]"
proof -
  have h: "save_zoomlevels one_tile_map (savetiles (defaults\<lparr>saveWhatYouSee := True, maxZoom := 11\<rparr>))
     = Inr [10, 11]"
    by code_simp
  show ?thesis
    using h tile_list_in_request_order [OF h]
    by (simp add: level_tiles_def one_tile_map_def)
qed

text \<open>
  Claim C4 as stated, in ascending level order, fails for a configured list that is
  not ascending: with the levels 7, 5 the tiles of level 7 come first.
\<close>

theorem tile_list_not_ascending:
  "save_zoomlevels level_map (savetiles (defaults\<lparr>zoomlevels := Some [7, 5]\<rparr>)) = Inr [7, 5]
   \<and> map tile_z (save_tiles level_map (savetiles (defaults\<lparr>zoomlevels := Some [7, 5]\<rparr>)) [7, 5])
       = [7, 5]
   \<and> save_tiles level_map (savetiles (defaults\<lparr>zoomlevels := Some [7, 5]\<rparr>)) [7, 5]
       \<noteq> concat (map (level_tiles level_map
            (save_bounds level_map (savetiles (defaults\<lparr>zoomlevels := Some [7, 5]\<rparr>))))
            (sort [7, 5]))"
  by code_simp

subsection \<open>C5: the reset\<close>

text \<open>
  Claim C5. A save request that passes the zoom check replaces the status record by
  the record with a reference to the new work list, the length of that list, both
  counters 0, and the storage size of the record before. The gate that follows does not
  change the record.
\<close>

theorem reset_replaces_status:
  assumes "save_zoomlevels m s = Inr zs"
  shows "status (save_reset (save_tiles m s zs) s)
       = \<lparr>tilesforSave = next_array s, storagesize = storagesize (status s),
          lengthToBeSaved = length (save_tiles m s zs), lengthSaved = 0, lengthLoaded = 0\<rparr>
     \<and> arrays (save_reset (save_tiles m s zs) s) (next_array s) = save_tiles m s zs
     \<and> saveTiles m s = Inr (save_gate (save_reset (save_tiles m s zs) s))
     \<and> status (step s (Click_save m)) = status (save_reset (save_tiles m s zs) s)"
  using assms by (simp add: saveTiles_def)

text \<open>
  The theorem at a second run: the record of the first run, with its counters at 1 and
  the storage size 7, is replaced, and the 7 is carried over.
\<close>

theorem reset_replaces_status_witness:
  "save_zoomlevels two_tile_map drained_state = Inr [10]
   \<and> status drained_state
       = \<lparr>tilesforSave = 1, storagesize = 7, lengthToBeSaved = 1, lengthSaved = 1, lengthLoaded = 1\<rparr>
   \<and> status (step drained_state (Click_save two_tile_map))
       = \<lparr>tilesforSave = 2, storagesize = 7, lengthToBeSaved = 2, lengthSaved = 0, lengthLoaded = 0\<rparr>"
proof -
  have h: "save_zoomlevels two_tile_map drained_state = Inr [10]"
    by code_simp
  have st: "status drained_state
       = \<lparr>tilesforSave = 1, storagesize = 7, lengthToBeSaved = 1, lengthSaved = 1, lengthLoaded = 1\<rparr>"
    by code_simp
  have nx: "next_array drained_state = 2"
    by code_simp
  have tl: "save_tiles two_tile_map drained_state [10] = [tile_a, tile_b]"
    by code_simp
  have "status (step drained_state (Click_save two_tile_map))
      = \<lparr>tilesforSave = next_array drained_state, storagesize = storagesize (status drained_state),
          lengthToBeSaved = length (save_tiles two_tile_map drained_state [10]),
          lengthSaved = 0, lengthLoaded = 0\<rparr>"
    using reset_replaces_status [OF h] by simp
  then show ?thesis
    using h st by (simp add: nx tl)
qed

subsection \<open>C6: the zoom floor\<close>

text \<open>
  Claim C6. When saving what you see with a current zoom below 5, \<open>_saveTiles\<close> throws
  its error, and the click leaves the control as it was: nothing is called, nothing is
  fired, nothing waits.
\<close>

theorem low_zoom_fails_fast:
  assumes "saveWhatYouSee (options s)" and "getZoom m < 5"
  shows "saveTiles m s
       = Inl (Error (''It'' @ [CHR 0x27] @ ''s not possible to save with zoom below level 5.''))
     \<and> step s (Click_save m) = s"
  using assms by (simp add: saveTiles_def save_zoomlevels_def minZoom_def)

text \<open>At zoom 4: the only call so far is the constructor's count.\<close>

theorem low_zoom_fails_fast_witness:
  "saveTiles level_map (savetiles (defaults\<lparr>saveWhatYouSee := True\<rparr>))
       = Inl (Error (''It'' @ [CHR 0x27] @ ''s not possible to save with zoom below level 5.''))
   \<and> trace (step (savetiles (defaults\<lparr>saveWhatYouSee := True\<rparr>)) (Click_save level_map))
       = [Called_getStorageLength]"
proof -
  have h1: "saveWhatYouSee (options (savetiles (defaults\<lparr>saveWhatYouSee := True\<rparr>)))"
    by (simp add: savetiles_def setStorageSize_def)
  have h2: "getZoom level_map < 5" by (simp add: level_map_def)
  show ?thesis
    using low_zoom_fails_fast [OF h1 h2] by (simp add: savetiles_def setStorageSize_def)
qed

subsection \<open>C7: the removal\<close>

text \<open>
  Claim C7. When a removal proceeds (at once without a hook, when the hook calls back
  with one), \<open>truncate\<close> is called and the status record is left alone. When \<open>truncate\<close>
  has succeeded the storage size is set to 0, every other field of the record keeps its
  value, and \<open>tilesremoved\<close> is fired, then \<open>storagesize\<close>.
\<close>

theorem removal_resets_storage_size_only:
  "trace (rm_successCallback s) = trace s @ [Called_truncate]
   \<and> status (rm_successCallback s) = status s
   \<and> awaiting (rm_successCallback s) (length (tasks s)) = Some Truncate_task
   \<and> (if confirmRemoval (options s)
       then trace (step s Click_rm) = trace s @ [Called_confirmRemoval (status s)]
          \<and> awaiting (step s Click_rm) (length (tasks s)) = Some ConfirmRemoval_task
          \<and> step (step s Click_rm) (Proceed (length (tasks s))) = rm_successCallback (step s Click_rm)
       else step s Click_rm = rm_successCallback s)
   \<and> (awaiting s2 i = Some Truncate_task \<longrightarrow>
        status (step s2 (Truncate_settled i True)) = (status s2)\<lparr>storagesize := 0\<rparr>
        \<and> trace (step s2 (Truncate_settled i True))
            = trace s2 @ [Fired ''tilesremoved'' None,
                          Fired ''storagesize'' (Some ((status s2)\<lparr>storagesize := 0\<rparr>))])"
  by (simp add: rm_successCallback_def rmTiles_def awaiting_def truncate_settled_def Let_def)

text \<open>
  A removal after a run that loaded its one tile: the size goes from 10 to 0, the
  counters of the run stay.
\<close>

theorem removal_resets_storage_size_only_witness:
  "awaiting removing_state 4 = Some Truncate_task
   \<and> status removing_state
       = \<lparr>tilesforSave = 1, storagesize = 10, lengthToBeSaved = 1, lengthSaved = 0, lengthLoaded = 1\<rparr>
   \<and> status (step removing_state (Truncate_settled 4 True))
       = \<lparr>tilesforSave = 1, storagesize = 0, lengthToBeSaved = 1, lengthSaved = 0, lengthLoaded = 1\<rparr>
   \<and> trace (step removing_state (Truncate_settled 4 True))
       = trace removing_state
         @ [Fired ''tilesremoved'' None,
            Fired ''storagesize'' (Some \<lparr>tilesforSave = 1, storagesize = 0, lengthToBeSaved = 1,
                                          lengthSaved = 0, lengthLoaded = 1\<rparr>)]"
proof -
  have h: "awaiting removing_state 4 = Some Truncate_task"
    by code_simp
  have st: "status removing_state
     = \<lparr>tilesforSave = 1, storagesize = 10, lengthToBeSaved = 1, lengthSaved = 0, lengthLoaded = 1\<rparr>"
    by code_simp
  have "status (step removing_state (Truncate_settled 4 True))
          = (status removing_state)\<lparr>storagesize := 0\<rparr>
      \<and> trace (step removing_state (Truncate_settled 4 True))
          = trace removing_state
            @ [Fired ''tilesremoved'' None,
               Fired ''storagesize'' (Some ((status removing_state)\<lparr>storagesize := 0\<rparr>))]"
    using h removal_resets_storage_size_only [of "savetiles defaults" removing_state 4] by blast
  then show ?thesis
    using h st by simp
qed

subsection \<open>C8: the storage size\<close>

text \<open>
  Claim C8. \<open>setStorageSize\<close> returns the cached size, resolved, and does nothing else
  when that size is not 0. Otherwise it calls \<open>getStorageLength\<close> and waits: on a number
  of keys it stores the number, fires \<open>storagesize\<close> and resolves to the number; on a
  rejection it resolves to 0 and leaves the record and the trace as they are.
\<close>

theorem storage_size_is_cached:
  "(if storagesize (status s) \<noteq> 0
    then setStorageSize s = (Resolved (storagesize (status s)), s)
    else fst (setStorageSize s) = Pending (length (tasks s))
       \<and> trace (snd (setStorageSize s)) = trace s @ [Called_getStorageLength]
       \<and> status (snd (setStorageSize s)) = status s
       \<and> awaiting (snd (setStorageSize s)) (length (tasks s)) = Some Count_task)
   \<and> (awaiting s2 i = Some Count_task \<longrightarrow>
        fst (getStorageLength_settled (Some n) (settle i s2)) = n
        \<and> status (step s2 (Count_settled i (Some n))) = (status s2)\<lparr>storagesize := n\<rparr>
        \<and> trace (step s2 (Count_settled i (Some n)))
            = trace s2 @ [Fired ''storagesize'' (Some ((status s2)\<lparr>storagesize := n\<rparr>))]
        \<and> fst (getStorageLength_settled None (settle i s2)) = 0
        \<and> status (step s2 (Count_settled i None)) = status s2
        \<and> trace (step s2 (Count_settled i None)) = trace s2)"
  by (simp add: setStorageSize_def awaiting_def getStorageLength_settled_def Let_def)

text \<open>The constructor's count answered with 3, and rejected; and a cached size of 7.\<close>

theorem storage_size_is_cached_witness:
  "awaiting (savetiles defaults) 0 = Some Count_task
   \<and> storagesize (status (savetiles defaults)) = 0
   \<and> storagesize (status (step (savetiles defaults) (Count_settled 0 (Some 3)))) = 3
   \<and> fst (getStorageLength_settled None (settle 0 (savetiles defaults))) = 0
   \<and> storagesize (status (step (savetiles defaults) (Count_settled 0 None))) = 0
   \<and> storagesize (status drained_state) = 7
   \<and> setStorageSize drained_state = (Resolved 7, drained_state)"
proof -
  have h: "awaiting (savetiles defaults) 0 = Some Count_task" by code_simp
  have z: "storagesize (status (savetiles defaults)) = 0" by code_simp
  have d: "storagesize (status drained_state) = 7" by code_simp
  have "status (step (savetiles defaults) (Count_settled 0 (Some 3)))
          = (status (savetiles defaults))\<lparr>storagesize := 3\<rparr>
      \<and> fst (getStorageLength_settled None (settle 0 (savetiles defaults))) = 0
      \<and> status (step (savetiles defaults) (Count_settled 0 None)) = status (savetiles defaults)"
    using h storage_size_is_cached [of drained_state "savetiles defaults" 0 3] by blast
  moreover have "setStorageSize drained_state = (Resolved (storagesize (status drained_state)), drained_state)"
    using d storage_size_is_cached [of drained_state "savetiles defaults" 0 3] by simp
  ultimately show ?thesis
    using h z d by simp
qed

subsection \<open>C9: the confirmation gate\<close>

text \<open>
  Claim C9, as the code has it. Without a hook the click itself fires \<open>savestart\<close> and
  starts the first downloads. With a hook the click calls the hook with the status
  record and leaves the callback waiting; if the control was idle at the click, then as
  long as that callback is not called and the save button is not clicked again, no
  download starts, both counters stay 0, and \<open>lengthToBeSaved\<close> and the work list stay
  as the reset left them.
\<close>

theorem confirmation_gate:
  assumes "idle s" and "save_zoomlevels m s = Inr zs" and "saveTiles m s = Inr s1"
  shows "if confirm (options s)
     then trace s1 = trace s @ [Called_confirm (status s1)]
        \<and> awaiting s1 (length (tasks s)) = Some (Confirm_task (next_array s))
        \<and> (list_all (\<lambda>ev. \<not> is_Click_save ev \<and> ev \<noteq> Proceed (length (tasks s))) evs \<longrightarrow>
             download_calls (run s1 evs) = download_calls s
             \<and> lengthLoaded (status (run s1 evs)) = 0
             \<and> lengthSaved (status (run s1 evs)) = 0
             \<and> lengthToBeSaved (status (run s1 evs)) = length (save_tiles m s zs)
             \<and> tilesforSave (status (run s1 evs)) = next_array s
             \<and> arrays (run s1 evs) (next_array s) = save_tiles m s zs)
     else trace s1
        = trace s @ Fired ''savestart'' (Some (status s1))
            # map (\<lambda>t. Called_downloadTile (url t))
                (take (nat (min (int (length (save_tiles m s zs))) (parallel (options s))))
                   (save_tiles m s zs))"
proof -
  let ?tiles = "save_tiles m s zs"
  from assms(2,3) have s1: "s1 = save_gate (save_reset ?tiles s)"
    by (simp add: saveTiles_def)
  show ?thesis
  proof (cases "confirm (options s)")
    case True
    have a: "trace s1 = trace s @ [Called_confirm (status s1)]"
      and b: "awaiting s1 (length (tasks s)) = Some (Confirm_task (next_array s))"
      and c: "download_calls s1 = download_calls s"
      and d: "status s1 = status (save_reset ?tiles s)" "arrays s1 = arrays (save_reset ?tiles s)"
      using True by (simp_all add: s1 save_gate_def awaiting_def download_calls_def)
    have h: "held (length (tasks s)) s1"
      unfolding s1 using assms(1) True by (rule held_save_gate)
    have "download_calls (run s1 evs) = download_calls s
        \<and> lengthLoaded (status (run s1 evs)) = 0
        \<and> lengthSaved (status (run s1 evs)) = 0
        \<and> lengthToBeSaved (status (run s1 evs)) = length ?tiles
        \<and> tilesforSave (status (run s1 evs)) = next_array s
        \<and> arrays (run s1 evs) (next_array s) = ?tiles"
      if "list_all (\<lambda>ev. \<not> is_Click_save ev \<and> ev \<noteq> Proceed (length (tasks s))) evs"
      using held_run [OF h that] c d by (simp add: same_run_def)
    with True a b show ?thesis by simp
  next
    case False
    then show ?thesis
      by (simp add: s1 save_gate_def successCallback_eq launched_def)
  qed
qed

text \<open>
  With a hook that never calls back, whatever else happens (a count, a removal, another
  count); and without a hook.
\<close>

theorem confirmation_gate_witness:
  "idle hooked_state
   \<and> saveTiles two_tile_map hooked_state = Inr (step hooked_state (Click_save two_tile_map))
   \<and> awaiting (step hooked_state (Click_save two_tile_map)) 1 = Some (Confirm_task 1)
   \<and> download_calls (run (step hooked_state (Click_save two_tile_map))
        [Count_settled 0 (Some 3), Click_rm, Truncate_settled 2 True, Refresh, Count_settled 3 None]) = []
   \<and> lengthLoaded (status (run (step hooked_state (Click_save two_tile_map))
        [Count_settled 0 (Some 3), Click_rm, Truncate_settled 2 True, Refresh, Count_settled 3 None])) = 0
   \<and> arrays (run (step hooked_state (Click_save two_tile_map))
        [Count_settled 0 (Some 3), Click_rm, Truncate_settled 2 True, Refresh, Count_settled 3 None]) 1
      = [tile_a, tile_b]
   \<and> idle (savetiles defaults)
   \<and> trace (step (savetiles defaults) (Click_save two_tile_map))
      = [Called_getStorageLength,
         Fired ''savestart'' (Some \<lparr>tilesforSave = 1, storagesize = 0, lengthToBeSaved = 2,
                                     lengthSaved = 0, lengthLoaded = 0\<rparr>),
         Called_downloadTile ''a.png'', Called_downloadTile ''b.png'']"
proof -
  have h1: "idle hooked_state" by code_simp
  have h2: "save_zoomlevels two_tile_map hooked_state = Inr [10]" by code_simp
  have h3: "saveTiles two_tile_map hooked_state = Inr (step hooked_state (Click_save two_tile_map))"
    by (simp add: saveTiles_def h2)
  have c: "confirm (options hooked_state)" by code_simp
  have l: "length (tasks hooked_state) = 1" by code_simp
  have e: "list_all (\<lambda>ev. \<not> is_Click_save ev \<and> ev \<noteq> Proceed (length (tasks hooked_state)))
      [Count_settled 0 (Some 3), Click_rm, Truncate_settled 2 True, Refresh, Count_settled 3 None]"
    by (simp add: l)
  have n: "next_array hooked_state = 1" by code_simp
  have d: "download_calls hooked_state = []" by code_simp
  have t: "save_tiles two_tile_map hooked_state [10] = [tile_a, tile_b]" by code_simp
  have k1: "idle (savetiles defaults)" by code_simp
  have k2: "save_zoomlevels two_tile_map (savetiles defaults) = Inr [10]" by code_simp
  have k3: "saveTiles two_tile_map (savetiles defaults)
      = Inr (step (savetiles defaults) (Click_save two_tile_map))"
    by (simp add: saveTiles_def k2)
  have kc: "\<not> confirm (options (savetiles defaults))" by code_simp
  have kt: "save_tiles two_tile_map (savetiles defaults) [10] = [tile_a, tile_b]" by code_simp
  have kp: "parallel (options (savetiles defaults)) = 50" by code_simp
  have ks: "status (step (savetiles defaults) (Click_save two_tile_map))
      = \<lparr>tilesforSave = 1, storagesize = 0, lengthToBeSaved = 2, lengthSaved = 0, lengthLoaded = 0\<rparr>"
    by code_simp
  have kr: "trace (savetiles defaults) = [Called_getStorageLength]" by code_simp
  note a = confirmation_gate [OF h1 h2 h3,
      of "[Count_settled 0 (Some 3), Click_rm, Truncate_settled 2 True, Refresh, Count_settled 3 None]"]
  note b = confirmation_gate [OF k1 k2 k3, of "[]"]
  have "awaiting (step hooked_state (Click_save two_tile_map)) 1 = Some (Confirm_task 1)
     \<and> download_calls (run (step hooked_state (Click_save two_tile_map))
        [Count_settled 0 (Some 3), Click_rm, Truncate_settled 2 True, Refresh, Count_settled 3 None]) = []
     \<and> lengthLoaded (status (run (step hooked_state (Click_save two_tile_map))
        [Count_settled 0 (Some 3), Click_rm, Truncate_settled 2 True, Refresh, Count_settled 3 None])) = 0
     \<and> arrays (run (step hooked_state (Click_save two_tile_map))
        [Count_settled 0 (Some 3), Click_rm, Truncate_settled 2 True, Refresh, Count_settled 3 None]) 1
      = [tile_a, tile_b]"
    using a c e by (simp add: l n d t del: run.simps step.simps)
  moreover have "trace (step (savetiles defaults) (Click_save two_tile_map))
      = [Called_getStorageLength,
         Fired ''savestart'' (Some \<lparr>tilesforSave = 1, storagesize = 0, lengthToBeSaved = 2,
                                     lengthSaved = 0, lengthLoaded = 0\<rparr>),
         Called_downloadTile ''a.png'', Called_downloadTile ''b.png'']"
    using b kc by (simp add: kt kp ks kr tile_a_def tile_b_def del: run.simps step.simps)
  ultimately show ?thesis
    using h1 h3 k1 by (simp del: run.simps step.simps)
qed

text \<open>
  Claim C9 as stated fails when the request comes while an earlier run is at work: the
  callback of the second run is never called, and still a download starts and the
  record of the second run counts a loaded tile.
\<close>

theorem gate_does_not_hold_an_earlier_run:
  "awaiting overlapped_state 3 = Some (Confirm_task 2)
   \<and> status overlapped_state
       = \<lparr>tilesforSave = 2, storagesize = 0, lengthToBeSaved = 2, lengthSaved = 0, lengthLoaded = 0\<rparr>
   \<and> download_calls overlapped_state = [Called_downloadTile ''a.png'']
   \<and> lengthLoaded (status (run overlapped_state [Download_settled 2 (Some ''x''), Loader_resumed 5])) = 1
   \<and> download_calls (run overlapped_state [Download_settled 2 (Some ''x''), Loader_resumed 5])
       = [Called_downloadTile ''a.png'', Called_downloadTile ''b.png'']"
  by code_simp

subsection \<open>C10: no zoom check outside that mode\<close>

text \<open>
  Claim C10. \<open>_saveTiles\<close> throws exactly when it saves what you see and the current
  zoom is below 5. Otherwise the configured levels, whatever they are, or the current
  zoom, whatever it is, go on to the reset and the gate.
\<close>

theorem zoom_floor_only_when_saving_what_you_see:
  "isl (saveTiles m s) = (saveWhatYouSee (options s) \<and> getZoom m < 5)
   \<and> (\<not> saveWhatYouSee (options s) \<longrightarrow>
        saveTiles m s =
          Inr (save_gate (save_reset (save_tiles m s
                 (case zoomlevels (options s) of Some zs \<Rightarrow> zs | None \<Rightarrow> [getZoom m])) s)))"
  by (simp add: saveTiles_def save_zoomlevels_def minZoom_def Let_def)

text \<open>At zoom 4, with the levels 3 and 4 configured, and with no levels configured.\<close>

theorem zoom_floor_only_when_saving_what_you_see_witness:
  "\<not> isl (saveTiles level_map (savetiles (defaults\<lparr>zoomlevels := Some [3, 4]\<rparr>)))
   \<and> \<not> isl (saveTiles level_map (savetiles defaults))"
proof -
  have h1: "\<not> saveWhatYouSee (options (savetiles (defaults\<lparr>zoomlevels := Some [3, 4]\<rparr>)))"
    by (simp add: savetiles_def setStorageSize_def defaults_def)
  have h2: "\<not> saveWhatYouSee (options (savetiles defaults))"
    by (simp add: savetiles_def setStorageSize_def defaults_def)
  show ?thesis
    using h1 h2
      zoom_floor_only_when_saving_what_you_see
        [of level_map "savetiles (defaults\<lparr>zoomlevels := Some [3, 4]\<rparr>)"]
      zoom_floor_only_when_saving_what_you_see [of level_map "savetiles defaults"]
    by simp
qed

end
